theory Spec2Isabelle
  imports Complex_Main "HOL-Library.Multiset"
begin

section \<open>Shared model: JavaScript arrays, the countdown timer, the completion event\<close>

text \<open>
  The minigames are Svelte components written in TypeScript.  Each component is a set of
  module-level variables (the state) and handlers that mutate them; a handler is modelled as a
  function from the state before to the state after.  \<^verbatim>\<open>playSound\<close> and the DOM class toggles
  touch nothing the handlers read back, so they are left out.  Counters and indices are
  naturals; a source comparison \<^verbatim>\<open>x < n - 1\<close> (where \<^verbatim>\<open>n - 1\<close> may be negative in
  JavaScript) is written \<open>x + 1 < n\<close>.
\<close>

text \<open>
  An array slot of \<^verbatim>\<open>string[]\<close> as the code uses it: a colour string, the \<^verbatim>\<open>null\<close> the code
  stores for an unfilled or consumed slot, or \<^verbatim>\<open>undefined\<close> (a read past the end, a hole).
\<close>

datatype slot = Undefined | Null | Color string

text \<open>\<^verbatim>\<open>xs[i]\<close>: a read past the end is \<^verbatim>\<open>undefined\<close>.\<close>

definition js_get :: "slot list \<Rightarrow> nat \<Rightarrow> slot" where
  "js_get xs i = (if i < length xs then xs ! i else Undefined)"

text \<open>\<^verbatim>\<open>xs[i] = v\<close>: a write past the end extends the array, the gap filled with holes.\<close>

definition js_store :: "'a \<Rightarrow> 'a list \<Rightarrow> nat \<Rightarrow> 'a \<Rightarrow> 'a list" where
  "js_store hole xs i v =
     (if i < length xs then xs[i := v] else xs @ replicate (i - length xs) hole @ [v])"

text \<open>\<^verbatim>\<open>xs.findIndex(pred)\<close>: the first index whose element satisfies the predicate;
  \<open>None\<close> stands for the result \<^verbatim>\<open>-1\<close>.\<close>

fun findIndex :: "('a \<Rightarrow> bool) \<Rightarrow> 'a list \<Rightarrow> nat option" where
  "findIndex pred [] = None"
| "findIndex pred (x # xs) =
     (if pred x then Some 0 else map_option Suc (findIndex pred xs))"

subsection \<open>CountdownTimer (utils.ts)\<close>

text \<open>
  \<open>startTime\<close>, \<open>timerDuration\<close> (the class's \<^verbatim>\<open>duration\<close>) and \<open>timerInterval\<close> are the fields of
  the class; \<open>None\<close> is \<^verbatim>\<open>null\<close>.  \<open>registered\<close> and \<open>nextHandle\<close> are the host's side of
  \<^verbatim>\<open>setInterval\<close>/\<^verbatim>\<open>clearInterval\<close> for this object: the handles whose callback the host
  still fires, and the next handle it hands out (handles are positive integers).
\<close>

record CountdownTimer =
  startTime :: int
  timerDuration :: int
  timerInterval :: "nat option"
  registered :: "nat list"
  nextHandle :: nat

datatype timerEvent = Update int | Complete

text \<open>\<^verbatim>\<open>new CountdownTimer(duration, onUpdate, onComplete)\<close> at time \<open>now\<close>.\<close>

definition newTimer :: "int \<Rightarrow> int \<Rightarrow> CountdownTimer" where
  "newTimer d now =
     \<lparr>startTime = now, timerDuration = d, timerInterval = None, registered = [], nextHandle = 1\<rparr>"

text \<open>\<^verbatim>\<open>stop()\<close>: \<^verbatim>\<open>if (this.timerInterval) { clearInterval(...); this.timerInterval = null }\<close>.
  The handle \<open>0\<close> would be falsy.\<close>

definition stop :: "CountdownTimer \<Rightarrow> CountdownTimer" where
  "stop t =
     (case timerInterval t of
        None \<Rightarrow> t
      | Some h \<Rightarrow>
          if h \<noteq> 0 then t\<lparr>timerInterval := None, registered := removeAll h (registered t)\<rparr>
          else t)"

text \<open>\<^verbatim>\<open>start()\<close> at time \<open>now\<close>: rebase the start time and register a fresh interval.\<close>

definition start :: "int \<Rightarrow> CountdownTimer \<Rightarrow> CountdownTimer" where
  "start now t =
     t\<lparr>startTime := now,
       timerInterval := Some (nextHandle t),
       registered := nextHandle t # registered t,
       nextHandle := Suc (nextHandle t)\<rparr>"

text \<open>\<^verbatim>\<open>reset()\<close> at time \<open>now\<close>.\<close>

definition reset :: "int \<Rightarrow> CountdownTimer \<Rightarrow> CountdownTimer" where
  "reset now t = (stop t)\<lparr>startTime := now\<rparr>"

definition isRunning :: "CountdownTimer \<Rightarrow> bool" where
  "isRunning t = (timerInterval t \<noteq> None)"

text \<open>\<open>remaining\<close> as the interval callback computes it at time \<open>now\<close>.\<close>

definition remainingAt :: "CountdownTimer \<Rightarrow> int \<Rightarrow> int" where
  "remainingAt t now = max 0 (timerDuration t - (now - startTime t))"

text \<open>The body of the interval callback at time \<open>now\<close>: the timer after it, and the
  callbacks it invoked, in order.\<close>

definition tick :: "int \<Rightarrow> CountdownTimer \<Rightarrow> CountdownTimer \<times> timerEvent list" where
  "tick now t =
     (let elapsed = now - startTime t;
          remaining = max 0 (timerDuration t - elapsed)
      in if remaining \<le> 0 then (stop t, [Update remaining, Complete])
         else (t, [Update remaining]))"

text \<open>The host firing the interval with handle \<open>h\<close> at time \<open>now\<close>: a cleared interval
  fires nothing.\<close>

definition fire :: "nat \<Rightarrow> int \<Rightarrow> CountdownTimer \<Rightarrow> CountdownTimer \<times> timerEvent list" where
  "fire h now t = (if h \<in> set (registered t) then tick now t else (t, []))"

text \<open>A run of the host: the interval \<open>h\<close> comes due at each of the times \<open>nows\<close>.\<close>

fun fireAll :: "nat \<Rightarrow> int list \<Rightarrow> CountdownTimer \<Rightarrow> CountdownTimer \<times> timerEvent list" where
  "fireAll h [] t = (t, [])"
| "fireAll h (now # nows) t =
     (let (t1, es1) = fire h now t; (t2, es2) = fireAll h nows t1 in (t2, es1 @ es2))"

subsection \<open>Configuration (types.ts) and what every component keeps\<close>

datatype Difficulty = Easy | Normal | Hard

record BaseConfig =
  difficulty :: Difficulty
  duration :: int
  soundEnabled :: bool

text \<open>The union of the components' \<^verbatim>\<open>gameState\<close> string types.\<close>

datatype GameState = Idle | Playing | Observing | Input | Memorize | Solving | Success | Failure

text \<open>A value in the \<^verbatim>\<open>data\<close> object of the completion event.\<close>

datatype jsval = JNum int | JReal real | JSlots "slot list" | JNums "nat list"

text \<open>The detail of the \<^verbatim>\<open>complete\<close> event: \<^verbatim>\<open>{ success, data: { ... } }\<close>, the fields of
  \<^verbatim>\<open>data\<close> in the order the object literal lists them.\<close>

record CompleteEvent =
  success :: bool
  data :: "(string \<times> jsval) list"

text \<open>
  What all five components declare: \<^verbatim>\<open>gameState\<close>, \<^verbatim>\<open>timeLeft\<close>, \<^verbatim>\<open>timer\<close>.  \<open>pending\<close> is the
  host's list of \<^verbatim>\<open>setTimeout\<close> callbacks of \<^verbatim>\<open>handleGameOver\<close> that have not run yet: the
  delay in milliseconds and the \<^verbatim>\<open>success\<close> argument the closure captured.  The closure
  reads every other variable when it runs.
\<close>

record GameBase =
  gameState :: GameState
  timeLeft :: int
  timer :: CountdownTimer
  pending :: "(nat \<times> bool) list"

text \<open>
  \<^verbatim>\<open>exit()\<close>, the same in all five components: \<^verbatim>\<open>if (timer) timer.stop(); dispatch('exit')\<close>.
  The result is the state after it and the event dispatched; the \<^verbatim>\<open>exit\<close> event has no detail.
\<close>

datatype ExitEvent = ExitDispatched

definition exit_component :: "'a GameBase_scheme \<Rightarrow> 'a GameBase_scheme \<times> ExitEvent" where
  "exit_component st = (st\<lparr>timer := stop (timer st)\<rparr>, ExitDispatched)"

subsection \<open>The application shell (App.svelte)\<close>

text \<open>
  The shell mounts the component of the active minigame and listens to its \<^verbatim>\<open>complete\<close> and
  \<^verbatim>\<open>exit\<close> events and to the keyboard.  \<open>config\<close> is the configuration object, \<open>[]\<close> the
  empty object.  A \<^verbatim>\<open>fetch\<close> call is the message it posts: \<^verbatim>\<open>minigameComplete\<close> with
  \<^verbatim>\<open>{ success, data }\<close>, or \<^verbatim>\<open>minigameExit\<close> with an empty body.  A handler returns the
  shell's state after it and the messages it posted.
\<close>

record App =
  active :: bool
  minigameType :: string
  config :: "(string \<times> jsval) list"

datatype Post = MinigameComplete CompleteEvent | MinigameExit

definition handleComplete :: "CompleteEvent \<Rightarrow> App \<Rightarrow> App \<times> Post list" where
  "handleComplete ev app =
     (app\<lparr>active := False, minigameType := [], config := []\<rparr>, [MinigameComplete ev])"

definition handleExit :: "App \<Rightarrow> App \<times> Post list" where
  "handleExit app = (app\<lparr>active := False, minigameType := [], config := []\<rparr>, [MinigameExit])"

text \<open>\<^verbatim>\<open>handleKeydown\<close>, with \<open>key\<close> the event's \<^verbatim>\<open>key\<close>.\<close>

definition handleKeydown :: "string \<Rightarrow> App \<Rightarrow> App \<times> Post list" where
  "handleKeydown key app = (if key = ''Escape'' \<and> active app then handleExit app else (app, []))"

section \<open>Code Cracker (CodeCracker.svelte)\<close>

record CodeCrackerConfig = BaseConfig +
  codeLength :: nat
  attempts :: nat

record Feedback =
  correct :: nat
  misplaced :: nat

text \<open>\<open>attemptRows\<close> is the component's variable \<^verbatim>\<open>attempts\<close> (the configuration has a field
  of that name too).  A hole in \<open>attemptRows\<close> is the empty row, one in \<open>feedback\<close> the zero
  feedback; the code writes both arrays at \<^verbatim>\<open>currentAttempt\<close> only.\<close>

record CodeCracker = GameBase +
  currentAttempt :: nat
  attemptRows :: "slot list list"
  feedback :: "Feedback list"
  secretCode :: "slot list"
  currentGuess :: "slot list"
  selectedPosition :: nat

definition colorOptions :: "string list" where
  "colorOptions =
     [''#FF5252'', ''#4CAF50'', ''#2196F3'', ''#FFC107'',
      ''#9C27B0'', ''#FF9800'', ''#00BCD4'', ''#607D8B'']"

text \<open>\<^verbatim>\<open>generateSecretCode\<close>, given the indices \<^verbatim>\<open>getRandomInt\<close> returned.\<close>

definition generateSecretCode :: "nat list \<Rightarrow> slot list" where
  "generateSecretCode idxs = map (\<lambda>i. Color (colorOptions ! i)) idxs"

definition resetGame :: "CodeCrackerConfig \<Rightarrow> CodeCracker \<Rightarrow> CodeCracker" where
  "resetGame cfg st =
     st\<lparr>attemptRows := replicate (attempts cfg) (replicate (codeLength cfg) Null),
        feedback := replicate (attempts cfg) \<lparr>correct = 0, misplaced = 0\<rparr>,
        currentGuess := replicate (codeLength cfg) Null,
        currentAttempt := 0,
        selectedPosition := 0\<rparr>"

definition cc_startGame :: "int \<Rightarrow> CodeCracker \<Rightarrow> CodeCracker" where
  "cc_startGame now st = st\<lparr>gameState := Playing, timer := start now (timer st)\<rparr>"

definition selectPosition :: "nat \<Rightarrow> CodeCracker \<Rightarrow> CodeCracker" where
  "selectPosition position st =
     (if gameState st \<noteq> Playing then st else st\<lparr>selectedPosition := position\<rparr>)"

definition selectColor :: "CodeCrackerConfig \<Rightarrow> string \<Rightarrow> CodeCracker \<Rightarrow> CodeCracker" where
  "selectColor cfg color st =
     (if gameState st \<noteq> Playing then st
      else
        let st1 = st\<lparr>currentGuess :=
                       js_store Undefined (currentGuess st) (selectedPosition st) (Color color)\<rparr>
        in if selectedPosition st1 + 1 < codeLength cfg
           then st1\<lparr>selectedPosition := selectedPosition st1 + 1\<rparr>
           else st1)"

text \<open>The first loop of \<^verbatim>\<open>checkGuess\<close>, one iteration: the state is
  \<open>(correct, guessCopy, codeCopy)\<close>.\<close>

definition correctStep :: "nat \<times> slot list \<times> slot list \<Rightarrow> nat \<Rightarrow> nat \<times> slot list \<times> slot list" where
  "correctStep acc i =
     (case acc of (n, guessCopy, codeCopy) \<Rightarrow>
        if js_get guessCopy i = js_get codeCopy i
        then (n + 1, js_store Undefined guessCopy i Null, js_store Undefined codeCopy i Null)
        else (n, guessCopy, codeCopy))"

text \<open>The second loop, one iteration: the state is \<open>(misplaced, codeCopy)\<close>.\<close>

definition misplacedStep :: "slot list \<Rightarrow> nat \<times> slot list \<Rightarrow> nat \<Rightarrow> nat \<times> slot list" where
  "misplacedStep guessCopy acc i =
     (case acc of (m, codeCopy) \<Rightarrow>
        if js_get guessCopy i \<noteq> Null
        then (case findIndex (\<lambda>c. c = js_get guessCopy i) codeCopy of
                None \<Rightarrow> (m, codeCopy)
              | Some index \<Rightarrow> (m + 1, js_store Undefined codeCopy index Null))
        else (m, codeCopy))"

definition checkGuess :: "CodeCrackerConfig \<Rightarrow> slot list \<Rightarrow> slot list \<Rightarrow> Feedback" where
  "checkGuess cfg guess code =
     (let (n, guessCopy, codeCopy) = foldl correctStep (0, guess, code) [0..<codeLength cfg];
          (m, codeCopy2) = foldl (misplacedStep guessCopy) (0, codeCopy) [0..<codeLength cfg]
      in \<lparr>correct = n, misplaced = m\<rparr>)"

definition cc_handleGameOver :: "bool \<Rightarrow> CodeCracker \<Rightarrow> CodeCracker" where
  "cc_handleGameOver ok st =
     st\<lparr>timer := stop (timer st),
        gameState := (if ok then Success else Failure),
        pending := pending st @ [(2000, ok)]\<rparr>"

text \<open>The callback \<^verbatim>\<open>handleGameOver\<close> hands to \<^verbatim>\<open>setTimeout\<close>, when it runs.\<close>

definition cc_complete :: "bool \<Rightarrow> CodeCracker \<Rightarrow> CompleteEvent" where
  "cc_complete ok st =
     \<lparr>success = ok,
      data = [(''timeRemaining'', JNum (timeLeft st)),
              (''attempts'', JNum (int (currentAttempt st) + 1)),
              (''secretCode'', JSlots (secretCode st))]\<rparr>"

definition submitGuess :: "CodeCrackerConfig \<Rightarrow> CodeCracker \<Rightarrow> CodeCracker" where
  "submitGuess cfg st =
     (if gameState st \<noteq> Playing then st
      else if Null \<in> set (currentGuess st) then st
      else
        let st1 = st\<lparr>attemptRows := js_store [] (attemptRows st) (currentAttempt st) (currentGuess st)\<rparr>;
            result = checkGuess cfg (currentGuess st1) (secretCode st1);
            st2 = st1\<lparr>feedback :=
                        js_store \<lparr>correct = 0, misplaced = 0\<rparr> (feedback st1) (currentAttempt st1) result\<rparr>
        in if correct result = codeLength cfg then cc_handleGameOver True st2
           else if currentAttempt st2 + 1 \<ge> attempts cfg then cc_handleGameOver False st2
           else st2\<lparr>currentAttempt := currentAttempt st2 + 1,
                    currentGuess := replicate (codeLength cfg) Null,
                    selectedPosition := 0\<rparr>)"

text \<open>The component's variables as their declarations initialise them.\<close>

definition cc_initial :: "CodeCrackerConfig \<Rightarrow> int \<Rightarrow> CodeCracker" where
  "cc_initial cfg now =
     \<lparr>gameState = Idle, timeLeft = duration cfg, timer = newTimer (duration cfg) now, pending = [],
      currentAttempt = 0, attemptRows = [], feedback = [], secretCode = [], currentGuess = [],
      selectedPosition = 0\<rparr>"

text \<open>\<^verbatim>\<open>onMount\<close> at time \<open>now\<close>: \<^verbatim>\<open>generateSecretCode(); resetGame(); timer = new CountdownTimer(...);
  startGame()\<close>, with \<open>idxs\<close> the random palette indices drawn.\<close>

definition cc_onMount :: "CodeCrackerConfig \<Rightarrow> nat list \<Rightarrow> int \<Rightarrow> CodeCracker" where
  "cc_onMount cfg idxs now =
     cc_startGame now (resetGame cfg ((cc_initial cfg now)\<lparr>secretCode := generateSecretCode idxs\<rparr>))"

text \<open>
  The callbacks \<^verbatim>\<open>onMount\<close> gives the timer: \<^verbatim>\<open>(remaining) => { timeLeft = remaining }\<close> and
  \<^verbatim>\<open>() => { handleGameOver(false) }\<close>.
\<close>

fun cc_callback :: "CodeCracker \<Rightarrow> timerEvent \<Rightarrow> CodeCracker" where
  "cc_callback st (Update remaining) = st\<lparr>timeLeft := remaining\<rparr>"
| "cc_callback st Complete = cc_handleGameOver False st"

text \<open>The host lets the interval with handle \<open>h\<close> come due at time \<open>now\<close>: the timer's
  callback runs (if that interval is still registered) and calls the component's callbacks in
  order.  The component's callbacks do not read the timer, so the timer's own changes are
  written first.\<close>

definition cc_interval :: "nat \<Rightarrow> int \<Rightarrow> CodeCracker \<Rightarrow> CodeCracker" where
  "cc_interval h now st =
     (case fire h now (timer st) of (t', es) \<Rightarrow> foldl cc_callback (st\<lparr>timer := t'\<rparr>) es)"

text \<open>What can happen to the mounted component: the interval comes due, or the player
  clicks a slot, a colour or the submit button.  (The exit button and the Escape key end the
  session: the shell deactivates the minigame and the component is unmounted.)\<close>

datatype cc_event = Tick nat int | SelectPosition nat | SelectColor string | Submit

fun cc_step :: "CodeCrackerConfig \<Rightarrow> cc_event \<Rightarrow> CodeCracker \<Rightarrow> CodeCracker" where
  "cc_step cfg (Tick h now) st = cc_interval h now st"
| "cc_step cfg (SelectPosition position) st = selectPosition position st"
| "cc_step cfg (SelectColor color) st = selectColor cfg color st"
| "cc_step cfg Submit st = submitGuess cfg st"

text \<open>A session: the events in the order they happen (the handlers never interleave).\<close>

definition cc_run :: "CodeCrackerConfig \<Rightarrow> cc_event list \<Rightarrow> CodeCracker \<Rightarrow> CodeCracker" where
  "cc_run cfg evs st = foldl (\<lambda>s e. cc_step cfg e s) st evs"

text \<open>The number of complete guesses submitted in the course of the events: the clicks on
  submit that found the game in play and every slot of the current guess filled.\<close>

fun submissions :: "CodeCrackerConfig \<Rightarrow> cc_event list \<Rightarrow> CodeCracker \<Rightarrow> nat" where
  "submissions cfg [] st = 0"
| "submissions cfg (e # es) st =
     (if e = Submit \<and> gameState st = Playing \<and> Null \<notin> set (currentGuess st) then 1 else 0)
     + submissions cfg es (cc_step cfg e st)"

text \<open>The time at which the interval with handle \<open>h\<close> last came due in the course of the
  events, if it did.\<close>

definition lastTick :: "nat \<Rightarrow> cc_event list \<Rightarrow> int option" where
  "lastTick h evs =
     foldl (\<lambda>a e. case e of Tick h' t \<Rightarrow> if h' = h then Some t else a | _ \<Rightarrow> a) None evs"

text \<open>An example: thirty seconds, four slots, six attempts; the player enters two wrong codes
  and then the secret one, the interval coming due one, two and three seconds after the
  start.\<close>

definition cc_exampleConfig :: CodeCrackerConfig where
  "cc_exampleConfig =
     \<lparr>difficulty = Easy, duration = 30000, soundEnabled = True, codeLength = 4, attempts = 6\<rparr>"

definition cc_exampleSession :: "cc_event list" where
  "cc_exampleSession =
     [Tick 1 1000,
      SelectColor ''#FF5252'', SelectColor ''#FF5252'', SelectColor ''#FF5252'', SelectColor ''#FF5252'',
      Submit,
      Tick 1 2000,
      SelectColor ''#4CAF50'', SelectColor ''#4CAF50'', SelectColor ''#4CAF50'', SelectColor ''#4CAF50'',
      Submit,
      SelectColor ''#FF5252'', SelectColor ''#4CAF50'', SelectColor ''#2196F3'', SelectColor ''#FFC107'',
      Tick 1 3000]"

section \<open>Randomness and errors\<close>

text \<open>A value of \<^verbatim>\<open>Math.random()\<close>: a number \<open>u\<close> with \<open>0 \<le> u < 1\<close>.  The draws a
  generator consumes are an argument of its model, in the order it calls for them.  The
  rounding of the floating-point product in \<^verbatim>\<open>getRandomInt\<close> is not modelled.\<close>

typedef draw = "{u :: real. 0 \<le> u \<and> u < 1}"
  by (rule exI [of _ 0]) simp

text \<open>\<^verbatim>\<open>getRandomInt(min, max)\<close> on integer bounds (\<^verbatim>\<open>Math.ceil\<close> and \<^verbatim>\<open>Math.floor\<close> leave
  them as they are), with \<open>u\<close> the value \<^verbatim>\<open>Math.random()\<close> returned.\<close>

definition getRandomInt :: "int \<Rightarrow> int \<Rightarrow> draw \<Rightarrow> int" where
  "getRandomInt minv maxv u = \<lfloor>Rep_draw u * of_int (maxv - minv + 1)\<rfloor> + minv"

text \<open>Reading a property of \<^verbatim>\<open>undefined\<close> or \<^verbatim>\<open>null\<close> throws.\<close>

datatype error = TypeError

section \<open>Safe Cracker (SafeCracker.svelte)\<close>

record SafeCrackerConfig = BaseConfig +
  maxRotations :: nat
  zones :: nat

text \<open>A success zone \<^verbatim>\<open>{ start, end, found }\<close>.\<close>

record Zone =
  zoneStart :: int
  zoneEnd :: int
  found :: bool

record SafeCracker = GameBase +
  currentRotation :: real
  rotationCount :: nat
  maxRotationCount :: nat
  isDragging :: bool
  prevAngle :: real
  successZones :: "Zone list"
  foundZonesCount :: nat
  dialHistory :: "real list"

definition TOTAL_DEGREES :: int where "TOTAL_DEGREES = 360"
definition MIN_ZONE_SIZE :: int where "MIN_ZONE_SIZE = 10"
definition MAX_ZONE_SIZE :: int where "MAX_ZONE_SIZE = 30"

text \<open>The \<^verbatim>\<open>for (const zone of successZones)\<close> loop of \<^verbatim>\<open>generateSuccessZones\<close>: whether it
  sets \<^verbatim>\<open>overlap\<close>.\<close>

definition overlapsAny :: "int \<Rightarrow> int \<Rightarrow> Zone list \<Rightarrow> bool" where
  "overlapsAny startPosition zoneSize zs =
     list_ex (\<lambda>zone.
        (startPosition \<ge> zoneStart zone \<and> startPosition \<le> zoneEnd zone) \<or>
        (startPosition + zoneSize \<ge> zoneStart zone \<and> startPosition + zoneSize \<le> zoneEnd zone) \<or>
        (zoneStart zone \<ge> startPosition \<and> zoneStart zone \<le> startPosition + zoneSize)) zs"

text \<open>The \<^verbatim>\<open>do ... while (overlap)\<close> loop: one draw per round.  \<open>None\<close>: the draws given
  ran out before a free position was found.\<close>

fun findPosition :: "int \<Rightarrow> Zone list \<Rightarrow> draw list \<Rightarrow> (int \<times> draw list) option" where
  "findPosition zoneSize zs [] = None"
| "findPosition zoneSize zs (u # us) =
     (let startPosition = getRandomInt 0 (TOTAL_DEGREES - zoneSize) u
      in if overlapsAny startPosition zoneSize zs then findPosition zoneSize zs us
         else Some (startPosition, us))"

text \<open>The outer \<^verbatim>\<open>for\<close> loop, with the number of zones still to place.\<close>

fun placeZones :: "nat \<Rightarrow> Zone list \<Rightarrow> draw list \<Rightarrow> Zone list option" where
  "placeZones 0 zs us = Some zs"
| "placeZones (Suc n) zs [] = None"
| "placeZones (Suc n) zs (u # us) =
     (let zoneSize = getRandomInt MIN_ZONE_SIZE MAX_ZONE_SIZE u
      in case findPosition zoneSize zs us of
           None \<Rightarrow> None
         | Some (startPosition, us') \<Rightarrow>
             placeZones n
               (zs @ [\<lparr>zoneStart = startPosition, zoneEnd = startPosition + zoneSize, found = False\<rparr>])
               us')"

definition generateSuccessZones :: "SafeCrackerConfig \<Rightarrow> draw list \<Rightarrow> Zone list option" where
  "generateSuccessZones cfg us = placeZones (zones cfg) [] us"

definition showUnfoundZones :: "SafeCracker \<Rightarrow> SafeCracker" where
  "showUnfoundZones st =
     st\<lparr>successZones := map (\<lambda>zone. if \<not> found zone then zone\<lparr>found := True\<rparr> else zone)
                            (successZones st)\<rparr>"

definition sc_handleGameOver :: "bool \<Rightarrow> SafeCracker \<Rightarrow> SafeCracker" where
  "sc_handleGameOver ok st =
     (let st1 = st\<lparr>timer := stop (timer st), gameState := (if ok then Success else Failure)\<rparr>;
          st2 = (if \<not> ok then showUnfoundZones st1 else st1)
      in st2\<lparr>pending := pending st2 @ [(2000, ok)]\<rparr>)"

text \<open>The callback \<^verbatim>\<open>handleGameOver\<close> hands to \<^verbatim>\<open>setTimeout\<close>, when it runs.\<close>

definition sc_complete :: "SafeCrackerConfig \<Rightarrow> bool \<Rightarrow> SafeCracker \<Rightarrow> CompleteEvent" where
  "sc_complete cfg ok st =
     \<lparr>success = ok,
      data = [(''timeRemaining'', JNum (timeLeft st)),
              (''zonesFound'', JNum (int (foundZonesCount st))),
              (''totalZones'', JNum (int (zones cfg)))]\<rparr>"

text \<open>The loop of \<^verbatim>\<open>checkSuccessZones\<close> over the indices still to visit; a \<^verbatim>\<open>return\<close> ends
  it.\<close>

fun checkZones :: "SafeCrackerConfig \<Rightarrow> nat list \<Rightarrow> SafeCracker \<Rightarrow> SafeCracker" where
  "checkZones cfg [] st = st"
| "checkZones cfg (i # is) st =
     (let zone = successZones st ! i
      in if \<not> found zone \<and> currentRotation st \<ge> of_int (zoneStart zone)
            \<and> currentRotation st \<le> of_int (zoneEnd zone)
         then
           let st1 = st\<lparr>successZones := (successZones st)[i := zone\<lparr>found := True\<rparr>],
                       foundZonesCount := foundZonesCount st + 1\<rparr>
           in if foundZonesCount st1 = zones cfg then sc_handleGameOver True st1
              else
                let st2 = st1\<lparr>rotationCount := rotationCount st1 + 1\<rparr>
                in if rotationCount st2 \<ge> maxRotationCount st2 then sc_handleGameOver False st2
                   else checkZones cfg is st2
         else checkZones cfg is st)"

definition checkSuccessZones :: "SafeCrackerConfig \<Rightarrow> SafeCracker \<Rightarrow> SafeCracker" where
  "checkSuccessZones cfg st = checkZones cfg [0..<length (successZones st)] st"

text \<open>JavaScript's \<^verbatim>\<open>x % m\<close>: the remainder has the sign of \<open>x\<close>.\<close>

definition js_rem :: "real \<Rightarrow> real \<Rightarrow> real" where
  "js_rem x m = x - m * of_int (if x / m \<ge> 0 then \<lfloor>x / m\<rfloor> else \<lceil>x / m\<rceil>)"

definition rotateDial :: "SafeCrackerConfig \<Rightarrow> real \<Rightarrow> SafeCracker \<Rightarrow> SafeCracker" where
  "rotateDial cfg delta st =
     (let r = js_rem (currentRotation st + delta) 360;
          r' = (if r < 0 then r + 360 else r);
          h = dialHistory st @ [r'];
          st1 = st\<lparr>currentRotation := r', dialHistory := (if length h > 100 then tl h else h)\<rparr>
      in checkSuccessZones cfg st1)"

text \<open>The mouse handlers; \<open>angle\<close> is what \<^verbatim>\<open>calculateAngle\<close> returns for the event, \<open>None\<close>
  when the dial element has no bounding rectangle.\<close>

definition startDrag :: "real option \<Rightarrow> SafeCracker \<Rightarrow> SafeCracker" where
  "startDrag angle st =
     (if gameState st \<noteq> Playing then st
      else case angle of
             None \<Rightarrow> st\<lparr>isDragging := True\<rparr>
           | Some a \<Rightarrow> st\<lparr>isDragging := True, prevAngle := a\<rparr>)"

definition drag :: "SafeCrackerConfig \<Rightarrow> real option \<Rightarrow> SafeCracker \<Rightarrow> SafeCracker" where
  "drag cfg angle st =
     (if \<not> isDragging st \<or> gameState st \<noteq> Playing then st
      else case angle of
             None \<Rightarrow> st
           | Some currentAngle \<Rightarrow>
               let angleDiff = currentAngle - prevAngle st;
                   delta = (if angleDiff > 180 then angleDiff - 360
                            else if angleDiff < - 180 then angleDiff + 360 else angleDiff)
               in (rotateDial cfg delta st)\<lparr>prevAngle := currentAngle\<rparr>)"

definition endDrag :: "SafeCracker \<Rightarrow> SafeCracker" where
  "endDrag st = st\<lparr>isDragging := False\<rparr>"

definition sc_initial :: "SafeCrackerConfig \<Rightarrow> int \<Rightarrow> SafeCracker" where
  "sc_initial cfg now =
     \<lparr>gameState = Idle, timeLeft = duration cfg, timer = newTimer (duration cfg) now, pending = [],
      currentRotation = 0, rotationCount = 0, maxRotationCount = maxRotations cfg,
      isDragging = False, prevAngle = 0, successZones = [], foundZonesCount = 0,
      dialHistory = []\<rparr>"

definition sc_startGame :: "int \<Rightarrow> SafeCracker \<Rightarrow> SafeCracker" where
  "sc_startGame now st = st\<lparr>gameState := Playing, timer := start now (timer st)\<rparr>"

text \<open>\<^verbatim>\<open>onMount\<close> at time \<open>now\<close>: generate the zones, create the timer, start the game.\<close>

definition sc_onMount :: "SafeCrackerConfig \<Rightarrow> draw list \<Rightarrow> int \<Rightarrow> SafeCracker option" where
  "sc_onMount cfg us now =
     map_option (\<lambda>zs. sc_startGame now ((sc_initial cfg now)\<lparr>successZones := zs\<rparr>))
       (generateSuccessZones cfg us)"

text \<open>
  The callbacks \<^verbatim>\<open>onMount\<close> gives the timer, as in Code Cracker:
  \<^verbatim>\<open>(remaining) => { timeLeft = remaining }\<close> and \<^verbatim>\<open>() => { handleGameOver(false) }\<close>.
\<close>

fun sc_callback :: "SafeCracker \<Rightarrow> timerEvent \<Rightarrow> SafeCracker" where
  "sc_callback st (Update remaining) = st\<lparr>timeLeft := remaining\<rparr>"
| "sc_callback st Complete = sc_handleGameOver False st"

definition sc_interval :: "nat \<Rightarrow> int \<Rightarrow> SafeCracker \<Rightarrow> SafeCracker" where
  "sc_interval h now st =
     (case fire h now (timer st) of (t', es) \<Rightarrow> foldl sc_callback (st\<lparr>timer := t'\<rparr>) es)"

text \<open>What can happen to the mounted component: the interval comes due, or one of the
  listeners \<^verbatim>\<open>onMount\<close> adds is called.  The touch listeners call the same three handlers
  (\<^verbatim>\<open>handleTouchStart\<close> and \<^verbatim>\<open>handleTouchMove\<close> for a single touch, with its coordinates), so a
  touch is the mouse event of the same kind here.  (The exit button and the Escape key end
  the session.)\<close>

datatype sc_event = DialTick nat int | MouseDown "real option" | MouseMove "real option" | MouseUp

fun sc_step :: "SafeCrackerConfig \<Rightarrow> sc_event \<Rightarrow> SafeCracker \<Rightarrow> SafeCracker" where
  "sc_step cfg (DialTick h now) st = sc_interval h now st"
| "sc_step cfg (MouseDown angle) st = startDrag angle st"
| "sc_step cfg (MouseMove angle) st = drag cfg angle st"
| "sc_step cfg MouseUp st = endDrag st"

definition sc_run :: "SafeCrackerConfig \<Rightarrow> sc_event list \<Rightarrow> SafeCracker \<Rightarrow> SafeCracker" where
  "sc_run cfg evs st = foldl (\<lambda>s e. sc_step cfg e s) st evs"

text \<open>
  What the player did, read off the dial: the positions the dial was turned to in the course
  of the events, in order.  The dial turns when the mouse moves (at a known angle) while the
  player drags and the game is in play; the position is where the dial stands after the
  move.  (The position 0 the dial starts at is not one it was turned to: the zones are
  checked after a turn only.)
\<close>

fun turnsDial :: "sc_event \<Rightarrow> SafeCracker \<Rightarrow> bool" where
  "turnsDial (MouseMove (Some a)) st = (isDragging st \<and> gameState st = Playing)"
| "turnsDial e st = False"

fun dialPositions :: "SafeCrackerConfig \<Rightarrow> sc_event list \<Rightarrow> SafeCracker \<Rightarrow> real list" where
  "dialPositions cfg [] st = []"
| "dialPositions cfg (e # es) st =
     (if turnsDial e st then [currentRotation (sc_step cfg e st)] else [])
     @ dialPositions cfg es (sc_step cfg e st)"

text \<open>The zones (by index) that contain one of the positions: the zones the player
  entered.\<close>

definition enteredZones :: "Zone list \<Rightarrow> real list \<Rightarrow> nat list" where
  "enteredZones zs rs =
     filter (\<lambda>i. list_ex (\<lambda>r. of_int (zoneStart (zs ! i)) \<le> r \<and> r \<le> of_int (zoneEnd (zs ! i))) rs)
       [0..<length zs]"

text \<open>What a session keeps true, for the zones \<open>zs\<close> generated at the start (at time \<open>now\<close>)
  and the positions \<open>rs\<close> the dial has been turned to: the zones keep their bounds, the
  counter is the number of zones entered, in play the flags mark the zones entered, and a
  game that is over has cleared its interval.\<close>

definition sc_inv :: "SafeCrackerConfig \<Rightarrow> Zone list \<Rightarrow> int \<Rightarrow> real list \<Rightarrow> SafeCracker \<Rightarrow> bool" where
  "sc_inv cfg zs now rs st \<longleftrightarrow>
     map zoneStart (successZones st) = map zoneStart zs
     \<and> map zoneEnd (successZones st) = map zoneEnd zs
     \<and> foundZonesCount st = length (enteredZones zs rs)
     \<and> (gameState st = Playing \<longrightarrow>
          timer st = start now (newTimer (duration cfg) now) \<and> pending st = []
          \<and> (\<forall>i<length zs. found (successZones st ! i) \<longleftrightarrow> i \<in> set (enteredZones zs rs))
          \<and> (zones cfg = 0 \<or> length (enteredZones zs rs) < zones cfg))
     \<and> (gameState st \<noteq> Playing \<longrightarrow> registered (timer st) = [])
     \<and> (gameState st = Failure \<longrightarrow>
          list_all found (successZones st) \<and> pending st = [(2000, False)]
          \<and> (zones cfg = 0 \<or> length (enteredZones zs rs) < zones cfg))"

text \<open>An example: two zones, thirty seconds; the player drags the dial from 0 to 5 degrees,
  lets go, and the time runs out.\<close>

definition sc_exampleConfig :: SafeCrackerConfig where
  "sc_exampleConfig =
     \<lparr>difficulty = Normal, duration = 30000, soundEnabled = True, maxRotations = 2, zones = 2\<rparr>"

definition sc_exampleSession :: "sc_event list" where
  "sc_exampleSession = [MouseDown (Some 0), MouseMove (Some 5), MouseUp, DialTick 1 30000]"

text \<open>What the zone claim speaks of: every zone lies on the dial and is at least
  \<^verbatim>\<open>MIN_ZONE_SIZE\<close> wide, and two different zones are strictly apart.\<close>

definition goodZones :: "Zone list \<Rightarrow> bool" where
  "goodZones zs \<longleftrightarrow>
     (\<forall>z\<in>set zs. 0 \<le> zoneStart z \<and> zoneStart z + 10 \<le> zoneEnd z \<and> zoneEnd z \<le> 360)
     \<and> (\<forall>i<length zs. \<forall>j<length zs. i \<noteq> j \<longrightarrow>
           zoneEnd (zs ! i) < zoneStart (zs ! j) \<or> zoneEnd (zs ! j) < zoneStart (zs ! i))"

section \<open>Circuit Solver (CircuitSolver.svelte)\<close>

record CircuitSolverConfig = BaseConfig +
  gridSize :: nat
  circuits :: nat

datatype PieceType = Straight | Corner | ThreeWay | FourWay | Empty | Source | Destination

text \<open>The fields \<^verbatim>\<open>top\<close>, \<^verbatim>\<open>right\<close>, \<^verbatim>\<open>bottom\<close>, \<^verbatim>\<open>left\<close> of \<^verbatim>\<open>Connections\<close>.\<close>

record Connections =
  top_conn :: bool
  right_conn :: bool
  bottom_conn :: bool
  left_conn :: bool

text \<open>\<open>ptype\<close> is the field \<^verbatim>\<open>type\<close>.\<close>

record CircuitPiece =
  ptype :: PieceType
  rotation :: nat
  connections :: Connections
  powered :: bool
  fixed :: bool

text \<open>The grid is an array of rows; a cell is a piece or \<^verbatim>\<open>null\<close>.  A position
  \<^verbatim>\<open>{ row, col }\<close> is the pair \<open>(row, col)\<close>.\<close>

type_synonym Grid = "CircuitPiece option list list"
type_synonym Position = "nat \<times> nat"

record CircuitSolver = GameBase +
  grid :: Grid
  sourcePosition :: Position
  destinationPosition :: Position

fun pieceDefs :: "PieceType \<Rightarrow> Connections" where
  "pieceDefs Straight = \<lparr>top_conn = True, right_conn = False, bottom_conn = True, left_conn = False\<rparr>"
| "pieceDefs Corner = \<lparr>top_conn = True, right_conn = True, bottom_conn = False, left_conn = False\<rparr>"
| "pieceDefs ThreeWay = \<lparr>top_conn = True, right_conn = True, bottom_conn = True, left_conn = False\<rparr>"
| "pieceDefs FourWay = \<lparr>top_conn = True, right_conn = True, bottom_conn = True, left_conn = True\<rparr>"
| "pieceDefs Empty = \<lparr>top_conn = False, right_conn = False, bottom_conn = False, left_conn = False\<rparr>"
| "pieceDefs Source = \<lparr>top_conn = False, right_conn = True, bottom_conn = False, left_conn = False\<rparr>"
| "pieceDefs Destination = \<lparr>top_conn = False, right_conn = False, bottom_conn = False, left_conn = True\<rparr>"

text \<open>One round of the loop in \<^verbatim>\<open>rotateConnections\<close>.\<close>

definition rotateOnce :: "Connections \<Rightarrow> Connections" where
  "rotateOnce result =
     \<lparr>top_conn = left_conn result, right_conn = top_conn result,
      bottom_conn = right_conn result, left_conn = bottom_conn result\<rparr>"

text \<open>\<^verbatim>\<open>for (let i = 0; i < rotation / 90; i++)\<close> runs once for every natural number below
  \<^verbatim>\<open>rotation / 90\<close>: \<open>(rotation + 89) div 90\<close> rounds.\<close>

definition rotateConnections :: "Connections \<Rightarrow> nat \<Rightarrow> Connections" where
  "rotateConnections conns rot = (rotateOnce ^^ ((rot + 89) div 90)) conns"

definition createPiece :: "PieceType \<Rightarrow> nat \<Rightarrow> CircuitPiece" where
  "createPiece t rot =
     \<lparr>ptype = t, rotation = rot, connections = rotateConnections (pieceDefs t) rot,
      powered = (t = Source), fixed = (t = Source \<or> t = Destination)\<rparr>"

text \<open>\<^verbatim>\<open>createGrid(rows, cols, defaultValue)\<close>.\<close>

definition createGrid :: "nat \<Rightarrow> nat \<Rightarrow> 'a \<Rightarrow> 'a list list" where
  "createGrid rows cols defaultValue = replicate rows (replicate cols defaultValue)"

text \<open>\<^verbatim>\<open>grid[row][col]\<close> for a row inside the grid; past the end of the row it is
  \<^verbatim>\<open>undefined\<close>, which the code treats like \<^verbatim>\<open>null\<close>.  (For a row outside the grid the
  handlers below raise before they read.)\<close>

definition cell :: "Grid \<Rightarrow> nat \<Rightarrow> nat \<Rightarrow> CircuitPiece option" where
  "cell g r c = (if r < length g \<and> c < length (g ! r) then g ! r ! c else None)"

text \<open>\<^verbatim>\<open>grid[row][col] = piece\<close> for a row inside the grid.\<close>

definition setCell :: "Grid \<Rightarrow> nat \<Rightarrow> nat \<Rightarrow> CircuitPiece option \<Rightarrow> Grid" where
  "setCell g r c v = g[r := js_store None (g ! r) c v]"

text \<open>\<^verbatim>\<open>placeSourceAndDestination(size)\<close> on the component state (\<open>sz\<close> is \<^verbatim>\<open>size\<close>); \<open>u1\<close> is
  the draw compared with 0.5, \<open>u2\<close> the draw of \<^verbatim>\<open>getRandomInt\<close>.  A write into a row that
  does not exist raises; with \<^verbatim>\<open>size\<close> 0 the column \<^verbatim>\<open>size - 1\<close> is \<^verbatim>\<open>-1\<close>, which is no
  element of the row, and the row \<^verbatim>\<open>size - 1\<close> does not exist.\<close>

definition placeSourceAndDestination ::
    "nat \<Rightarrow> draw \<Rightarrow> draw \<Rightarrow> CircuitSolver \<Rightarrow> error + CircuitSolver" where
  "placeSourceAndDestination sz u1 u2 st =
     (let isHorizontal = (Rep_draw u1 < 1 / 2)
      in if isHorizontal then
           let row = nat (getRandomInt 0 (int sz - 1) u2)
           in if row \<ge> length (grid st) then Inl TypeError
              else
                let g1 = setCell (grid st) row 0 (Some (createPiece Source 0));
                    g2 = (if sz = 0 then g1
                          else setCell g1 row (sz - 1) (Some (createPiece Destination 0)))
                in Inr (st\<lparr>sourcePosition := (row, 0),
                             destinationPosition := (row, sz - 1),
                             grid := g2\<rparr>)
         else
           let col = nat (getRandomInt 0 (int sz - 1) u2)
           in if length (grid st) = 0 \<or> sz = 0 \<or> sz - 1 \<ge> length (grid st) then Inl TypeError
              else
                let g1 = setCell (grid st) 0 col (Some (createPiece Source 90));
                    g2 = setCell g1 (sz - 1) col (Some (createPiece Destination 270))
                in Inr (st\<lparr>sourcePosition := (0, col),
                             destinationPosition := (sz - 1, col),
                             grid := g2\<rparr>))"

text \<open>\<^verbatim>\<open>randomizeRotations\<close>, over the cells of one row that the inner loop visits: a piece
  that is not fixed takes one draw.  \<open>None\<close>: the draws given ran out.\<close>

fun randomizeCells :: "CircuitPiece option list \<Rightarrow> draw list \<Rightarrow> (CircuitPiece option list \<times> draw list) option" where
  "randomizeCells [] us = Some ([], us)"
| "randomizeCells (None # ps) us =
     map_option (\<lambda>(ps', us'). (None # ps', us')) (randomizeCells ps us)"
| "randomizeCells (Some piece # ps) us =
     (if fixed piece
      then map_option (\<lambda>(ps', us'). (Some piece # ps', us')) (randomizeCells ps us)
      else case us of
             [] \<Rightarrow> None
           | u # us1 \<Rightarrow>
               let randomRotation = [0, 90, 180, 270] ! nat (getRandomInt 0 3 u);
                   piece' = piece\<lparr>rotation := randomRotation,
                                 connections := rotateConnections (pieceDefs (ptype piece)) randomRotation\<rparr>
               in map_option (\<lambda>(ps', us'). (Some piece' # ps', us')) (randomizeCells ps us1))"

text \<open>The outer loop, over the rows; \<open>n\<close> is \<^verbatim>\<open>grid[0].length\<close>.\<close>

fun randomizeRows :: "nat \<Rightarrow> Grid \<Rightarrow> draw list \<Rightarrow> Grid option" where
  "randomizeRows n [] us = Some []"
| "randomizeRows n (r # rs) us =
     (case randomizeCells (take n r) us of
        None \<Rightarrow> None
      | Some (r', us') \<Rightarrow> map_option (\<lambda>rs'. (r' @ drop n r) # rs') (randomizeRows n rs us'))"

definition randomizeRotations :: "draw list \<Rightarrow> CircuitSolver \<Rightarrow> CircuitSolver option" where
  "randomizeRotations us st =
     (case grid st of
        [] \<Rightarrow> Some st
      | r # rs \<Rightarrow> map_option (\<lambda>g. st\<lparr>grid := g\<rparr>) (randomizeRows (length r) (r # rs) us))"

definition cs_startGame :: "int \<Rightarrow> CircuitSolver \<Rightarrow> CircuitSolver" where
  "cs_startGame now st = st\<lparr>gameState := Playing, timer := start now (timer st)\<rparr>"

text \<open>The assignment \<^verbatim>\<open>piece.powered = true\<close> at \<open>(r, c)\<close>.\<close>

definition setPowered :: "Grid \<Rightarrow> nat \<Rightarrow> nat \<Rightarrow> Grid" where
  "setPowered g r c = g[r := (g ! r)[c := map_option (\<lambda>p. p\<lparr>powered := True\<rparr>) (g ! r ! c)]]"

text \<open>The test \<^verbatim>\<open>neighbour && neighbour.connections.<side> && !neighbour.powered\<close> of
  \<^verbatim>\<open>propagatePower\<close>, with \<open>sel\<close> the side of the neighbour that faces back.\<close>

definition unpoweredLink :: "Grid \<Rightarrow> nat \<Rightarrow> nat \<Rightarrow> (Connections \<Rightarrow> bool) \<Rightarrow> bool" where
  "unpoweredLink g r c sel =
     (case cell g r c of None \<Rightarrow> False | Some q \<Rightarrow> sel (connections q) \<and> \<not> powered q)"

text \<open>\<^verbatim>\<open>propagatePower(row, col)\<close>: the grid after the call.  The four directions are tried
  in the order of the source, each on the grid the one before left.\<close>

function propagatePower :: "Grid \<Rightarrow> nat \<Rightarrow> nat \<Rightarrow> Grid" where
  "propagatePower g row col =
     (case cell g row col of
        None \<Rightarrow> g
      | Some piece \<Rightarrow>
          if \<not> powered piece then g
          else
            let g1 = (if top_conn (connections piece) \<and> row > 0
                         \<and> unpoweredLink g (row - 1) col bottom_conn
                      then propagatePower (setPowered g (row - 1) col) (row - 1) col else g);
                g2 = (if right_conn (connections piece) \<and> col + 1 < length (g1 ! 0)
                         \<and> unpoweredLink g1 row (col + 1) left_conn
                      then propagatePower (setPowered g1 row (col + 1)) row (col + 1) else g1);
                g3 = (if bottom_conn (connections piece) \<and> row + 1 < length g2
                         \<and> unpoweredLink g2 (row + 1) col top_conn
                      then propagatePower (setPowered g2 (row + 1) col) (row + 1) col else g2);
                g4 = (if left_conn (connections piece) \<and> col > 0
                         \<and> unpoweredLink g3 row (col - 1) right_conn
                      then propagatePower (setPowered g3 row (col - 1)) row (col - 1) else g3)
            in g4)"
  by pat_completeness auto

text \<open>The cells that hold a piece without power: each recursive call of \<^verbatim>\<open>propagatePower\<close>
  has just taken one out.\<close>

definition unpowered :: "Grid \<Rightarrow> Position set" where
  "unpowered g = {(r, c). \<exists>p. cell g r c = Some p \<and> \<not> powered p}"

text \<open>The reset loop of \<^verbatim>\<open>updatePowerFlow\<close>: in every row the cells below
  \<^verbatim>\<open>grid[0].length\<close> that hold a piece other than a source lose power.\<close>

definition resetCell :: "CircuitPiece option \<Rightarrow> CircuitPiece option" where
  "resetCell v =
     (case v of
        None \<Rightarrow> None
      | Some piece \<Rightarrow> if ptype piece \<noteq> Source then Some (piece\<lparr>powered := False\<rparr>) else Some piece)"

definition resetPower :: "Grid \<Rightarrow> Grid" where
  "resetPower g = map (\<lambda>r. map resetCell (take (length (g ! 0)) r) @ drop (length (g ! 0)) r) g"

text \<open>\<^verbatim>\<open>updatePowerFlow\<close>; \<^verbatim>\<open>propagatePower\<close> reads \<^verbatim>\<open>grid[row][col]\<close> and raises when the
  source row is outside the grid.\<close>

definition updatePowerFlow :: "CircuitSolver \<Rightarrow> error + CircuitSolver" where
  "updatePowerFlow st =
     (let g = resetPower (grid st)
      in if fst (sourcePosition st) \<ge> length g then Inl TypeError
         else Inr (st\<lparr>grid := propagatePower g (fst (sourcePosition st)) (snd (sourcePosition st))\<rparr>))"

definition cs_handleGameOver :: "bool \<Rightarrow> CircuitSolver \<Rightarrow> CircuitSolver" where
  "cs_handleGameOver ok st =
     st\<lparr>timer := stop (timer st),
        gameState := (if ok then Success else Failure),
        pending := pending st @ [(1500, ok)]\<rparr>"

definition cs_complete :: "bool \<Rightarrow> CircuitSolver \<Rightarrow> CompleteEvent" where
  "cs_complete ok st = \<lparr>success = ok, data = [(''timeRemaining'', JNum (timeLeft st))]\<rparr>"

text \<open>\<^verbatim>\<open>checkWinCondition\<close>: \<^verbatim>\<open>destPiece.powered\<close> raises when there is no piece.\<close>

definition checkWinCondition :: "CircuitSolver \<Rightarrow> error + CircuitSolver" where
  "checkWinCondition st =
     (case cell (grid st) (fst (destinationPosition st)) (snd (destinationPosition st)) of
        None \<Rightarrow> Inl TypeError
      | Some destPiece \<Rightarrow> if powered destPiece then Inr (cs_handleGameOver True st) else Inr st)"

definition handlePieceClick :: "nat \<Rightarrow> nat \<Rightarrow> CircuitSolver \<Rightarrow> error + CircuitSolver" where
  "handlePieceClick row col st =
     (if gameState st \<noteq> Playing then Inr st
      else if row \<ge> length (grid st) then Inl TypeError
      else case cell (grid st) row col of
             None \<Rightarrow> Inr st
           | Some piece \<Rightarrow>
               if fixed piece then Inr st
               else
                 let rot = (rotation piece + 90) mod 360;
                     piece' = piece\<lparr>rotation := rot,
                                   connections := rotateConnections (pieceDefs (ptype piece)) rot\<rparr>;
                     st1 = st\<lparr>grid := setCell (grid st) row col (Some piece')\<rparr>
                 in case updatePowerFlow st1 of
                      Inl e \<Rightarrow> Inl e
                    | Inr st2 \<Rightarrow> checkWinCondition st2)"

subsection \<open>What the power-flow claim speaks of\<close>

text \<open>Two cells are linked when they are neighbours in the grid, both hold a piece, and
  each piece has a connection on the side of the other.\<close>

definition linked :: "Grid \<Rightarrow> Position \<Rightarrow> Position \<Rightarrow> bool" where
  "linked g a b =
     (case (cell g (fst a) (snd a), cell g (fst b) (snd b)) of
        (Some p, Some q) \<Rightarrow>
          (fst b + 1 = fst a \<and> snd b = snd a \<and> top_conn (connections p) \<and> bottom_conn (connections q))
          \<or> (fst b = fst a \<and> snd b = snd a + 1 \<and> right_conn (connections p) \<and> left_conn (connections q))
          \<or> (fst b = fst a + 1 \<and> snd b = snd a \<and> bottom_conn (connections p) \<and> top_conn (connections q))
          \<or> (fst b = fst a \<and> snd b + 1 = snd a \<and> left_conn (connections p) \<and> right_conn (connections q))
      | _ \<Rightarrow> False)"

text \<open>Reachable from \<open>a\<close> through linked cells.\<close>

definition reachable :: "Grid \<Rightarrow> Position \<Rightarrow> Position \<Rightarrow> bool" where
  "reachable g a b = ((a, b) \<in> {(x, y). linked g x y}\<^sup>*)"

definition poweredCells :: "Grid \<Rightarrow> Position set" where
  "poweredCells g = {(r, c). \<exists>p. cell g r c = Some p \<and> powered p}"

subsection \<open>Notions for the proof of the power-flow claim\<close>

text \<open>The grid with every power flag cleared: two grids with the same wiring differ in their
  power flags only.\<close>

definition wiring :: "Grid \<Rightarrow> Grid" where
  "wiring g = map (map (map_option (\<lambda>p. p\<lparr>powered := False\<rparr>))) g"

text \<open>Every row is as long as the first one.\<close>

definition rectangular :: "Grid \<Rightarrow> bool" where
  "rectangular g \<longleftrightarrow> (\<forall>r<length g. length (g ! r) = length (g ! 0))"

text \<open>Every cell linked to \<open>v\<close> has power.\<close>

definition closedAt :: "Grid \<Rightarrow> Position \<Rightarrow> bool" where
  "closedAt g v \<longleftrightarrow> (\<forall>w. linked g v w \<longrightarrow> w \<in> poweredCells g)"

text \<open>What a call of \<^verbatim>\<open>propagatePower\<close> at \<open>v\<close> does to the grid \<open>g\<close>: it changes power flags
  only and clears none; a cell that gained power is reachable from \<open>v\<close> and has no linked
  cell without power; nor has \<open>v\<close>, when it had power.\<close>

definition dfsPost :: "Grid \<Rightarrow> Position \<Rightarrow> Grid \<Rightarrow> bool" where
  "dfsPost g v g' \<longleftrightarrow>
     wiring g' = wiring g \<and> poweredCells g \<subseteq> poweredCells g'
     \<and> (\<forall>w\<in>poweredCells g' - poweredCells g. reachable g v w \<and> closedAt g' w)
     \<and> (v \<in> poweredCells g \<longrightarrow> closedAt g' v)"


section \<open>Thermite (Thermite.svelte) and Memory Sequence (MemorySequence.svelte)\<close>

text \<open>\<open>targets\<close> is Thermite's \<^verbatim>\<open>grid\<close> of booleans.  A hole in a row of booleans reads as
  \<open>False\<close>, as \<^verbatim>\<open>undefined\<close> does in a condition.  The spark and explosion effects are
  presentation only; \<open>showExplosion\<close> is kept.\<close>

record Thermite = GameBase +
  targets :: "bool list list"
  playerGrid :: "bool list list"
  targetCells :: "Position list"
  selectedCount :: nat
  incorrectSelections :: nat
  showExplosion :: bool

definition th_handleGameOver :: "bool \<Rightarrow> Thermite \<Rightarrow> Thermite" where
  "th_handleGameOver ok st =
     (let st1 = st\<lparr>timer := stop (timer st), gameState := (if ok then Success else Failure)\<rparr>;
          st2 = (if \<not> ok then st1\<lparr>showExplosion := True, playerGrid := targets st1\<rparr> else st1)
      in st2\<lparr>pending := pending st2 @ [(if ok then 1500 else 2500, ok)]\<rparr>)"

definition th_complete :: "bool \<Rightarrow> Thermite \<Rightarrow> CompleteEvent" where
  "th_complete ok st =
     \<lparr>success = ok,
      data = [(''timeRemaining'', JNum (timeLeft st)),
              (''correctSelections'', JNum (int (selectedCount st))),
              (''incorrectSelections'', JNum (int (incorrectSelections st))),
              (''totalTargets'', JNum (int (length (targetCells st))))]\<rparr>"

definition handleCellClick :: "nat \<Rightarrow> nat \<Rightarrow> Thermite \<Rightarrow> error + Thermite" where
  "handleCellClick row col st =
     (if gameState st \<noteq> Solving then Inr st
      else if row \<ge> length (playerGrid st) then Inl TypeError
      else if col < length (playerGrid st ! row) \<and> playerGrid st ! row ! col then Inr st
      else
        let st1 = st\<lparr>playerGrid := (playerGrid st)[row := js_store False (playerGrid st ! row) col True]\<rparr>
        in if row \<ge> length (targets st1) then Inl TypeError
           else
             let isCorrect = (col < length (targets st1 ! row) \<and> targets st1 ! row ! col)
             in if isCorrect then
                  let st2 = st1\<lparr>selectedCount := selectedCount st1 + 1\<rparr>
                  in if selectedCount st2 = length (targetCells st2)
                     then Inr (th_handleGameOver True st2) else Inr st2
                else
                  let st2 = st1\<lparr>incorrectSelections := incorrectSelections st1 + 1\<rparr>
                  in if incorrectSelections st2 \<ge> 3
                     then Inr (th_handleGameOver False st2) else Inr st2)"

record MemorySequence = GameBase +
  sequence_ms :: "nat list"
  playerSequence :: "nat list"
  currentIndex :: nat

definition ms_handleGameOver :: "bool \<Rightarrow> MemorySequence \<Rightarrow> MemorySequence" where
  "ms_handleGameOver ok st =
     st\<lparr>timer := stop (timer st),
        gameState := (if ok then Success else Failure),
        pending := pending st @ [(1500, ok)]\<rparr>"

definition ms_complete :: "bool \<Rightarrow> MemorySequence \<Rightarrow> CompleteEvent" where
  "ms_complete ok st =
     \<lparr>success = ok,
      data = [(''timeRemaining'', JNum (timeLeft st)),
              (''sequenceLength'', JNum (int (length (sequence_ms st)))),
              (''playerSequence'', JNums (playerSequence st))]\<rparr>"

text \<open>\<^verbatim>\<open>handleTileClick(tileNumber)\<close>; \<open>tileExists\<close> tells whether the document has the
  element \<^verbatim>\<open>tile-<tileNumber>\<close>.\<close>

definition handleTileClick :: "bool \<Rightarrow> nat \<Rightarrow> MemorySequence \<Rightarrow> MemorySequence" where
  "handleTileClick tileExists tileNumber st =
     (if gameState st \<noteq> Input then st
      else if \<not> tileExists then st
      else
        let st1 = st\<lparr>playerSequence := playerSequence st @ [tileNumber]\<rparr>
        in if currentIndex st1 < length (sequence_ms st1)
              \<and> tileNumber = sequence_ms st1 ! currentIndex st1
           then
             let st2 = st1\<lparr>currentIndex := currentIndex st1 + 1\<rparr>
             in if currentIndex st2 = length (sequence_ms st2) then ms_handleGameOver True st2
                else st2
           else ms_handleGameOver False st1)"

section \<open>Code Cracker: scoring and submission\<close>

lemma findIndex_None: "findIndex P xs = None \<longleftrightarrow> (\<forall>x\<in>set xs. \<not> P x)"
  by (induction xs) auto

lemma findIndex_Some: "findIndex P xs = Some i \<Longrightarrow> i < length xs \<and> P (xs ! i)"
  by (induction xs arbitrary: i) (auto split: if_splits)

lemma correctStep_triple:
  "correctStep (n, G, C) i =
     (if js_get G i = js_get C i
      then (n + 1, js_store Undefined G i Null, js_store Undefined C i Null) else (n, G, C))"
  by (simp add: correctStep_def)

text \<open>After \<open>k\<close> iterations of the first loop the matching positions below \<open>k\<close> are
  blanked in both copies and counted.\<close>

lemma correct_loop:
  assumes "length guess = length code" "k \<le> length guess"
  shows "foldl correctStep (0, guess, code) [0..<k] =
           (length (filter (\<lambda>i. guess ! i = code ! i) [0..<k]),
            map (\<lambda>i. if i < k \<and> guess ! i = code ! i then Null else guess ! i) [0..<length guess],
            map (\<lambda>i. if i < k \<and> guess ! i = code ! i then Null else code ! i) [0..<length code])"
    (is "_ = (_, ?G k, ?C k)")
  using assms(2)
proof (induction k)
  case 0
  show ?case by (simp add: map_nth)
next
  case (Suc k)
  have k: "k < length guess" "k < length code" using Suc.prems assms(1) by auto
  have g: "js_get (?G k) k = guess ! k"
    using k by (simp add: js_get_def)
  have c: "js_get (?C k) k = code ! k"
    using k by (simp add: js_get_def)
  have sg: "guess ! k = code ! k \<Longrightarrow> js_store Undefined (?G k) k Null = ?G (Suc k)"
    using k by (auto simp: js_store_def less_Suc_eq nth_list_update intro!: nth_equalityI)
  have sc: "guess ! k = code ! k \<Longrightarrow> js_store Undefined (?C k) k Null = ?C (Suc k)"
    using k by (auto simp: js_store_def less_Suc_eq nth_list_update intro!: nth_equalityI)
  have ng: "guess ! k \<noteq> code ! k \<Longrightarrow> ?G (Suc k) = ?G k"
    by (auto simp: less_Suc_eq)
  have nc: "guess ! k \<noteq> code ! k \<Longrightarrow> ?C (Suc k) = ?C k"
    by (auto simp: less_Suc_eq)
  from Suc have IH: "foldl correctStep (0, guess, code) [0..<k] =
           (length (filter (\<lambda>i. guess ! i = code ! i) [0..<k]), ?G k, ?C k)" by simp
  show ?case
  proof (cases "guess ! k = code ! k")
    case True
    then show ?thesis using sg sc by (simp add: IH correctStep_triple g c)
  next
    case False
    then show ?thesis using ng nc by (simp add: IH correctStep_triple g c)
  qed
qed

lemma misplacedStep_pair:
  "misplacedStep G (m, C) i =
     (if js_get G i \<noteq> Null
      then (case findIndex (\<lambda>c. c = js_get G i) C of
              None \<Rightarrow> (m, C)
            | Some index \<Rightarrow> (m + 1, js_store Undefined C index Null))
      else (m, C))"
  by (simp add: misplacedStep_def)

text \<open>The second loop reads the guess copy slot by slot.\<close>

lemma misplaced_loop_elems:
  "foldl (misplacedStep G) acc [0..<length G] = foldl (\<lambda>a g. misplacedStep [g] a 0) acc G"
proof -
  have "foldl (\<lambda>a g. misplacedStep [g] a 0) acc G
      = foldl (\<lambda>a g. misplacedStep [g] a 0) acc (map (nth G) [0..<length G])"
    by (simp add: map_nth)
  also have "\<dots> = foldl (\<lambda>a i. misplacedStep [G ! i] a 0) acc [0..<length G]"
    by (simp add: foldl_map)
  also have "\<dots> = foldl (misplacedStep G) acc [0..<length G]"
    by (rule foldl_cong) (auto simp: misplacedStep_def js_get_def)
  finally show ?thesis by simp
qed

lemma mset_consume:
  assumes "i < length C" "C ! i = g" "g \<noteq> Null"
  shows "filter_mset (\<lambda>c. c \<noteq> Null) (mset (C[i := Null]))
       = filter_mset (\<lambda>c. c \<noteq> Null) (mset C) - {#g#}"
  using assms by (simp add: mset_update)

text \<open>Each slot of the guess copy that is not blank consumes one equal slot of the code
  copy, if there is one: the count is the size of the multiset intersection.\<close>

lemma misplaced_elems:
  "fst (foldl (\<lambda>a g. misplacedStep [g] a 0) (m, C) G) =
     m + size (mset (filter (\<lambda>g. g \<noteq> Null) G) \<inter># filter_mset (\<lambda>c. c \<noteq> Null) (mset C))"
proof (induction G arbitrary: m C)
  case Nil
  show ?case by simp
next
  case (Cons g G)
  let ?M = "filter_mset (\<lambda>c. c \<noteq> Null) (mset C)"
  let ?A = "mset (filter (\<lambda>g. g \<noteq> Null) G)"
  show ?case
  proof (cases "g = Null")
    case True
    then show ?thesis using Cons.IH [of m C] by (simp add: misplacedStep_pair js_get_def)
  next
    case False
    show ?thesis
    proof (cases "findIndex (\<lambda>c. c = g) C")
      case None
      then have "g \<notin> set C" by (auto simp: findIndex_None)
      then have "g \<notin># ?M" by simp
      then have "add_mset g ?A \<inter># ?M = ?A \<inter># ?M"
        by (simp add: inter_add_left1)
      then show ?thesis
        using Cons.IH [of m C] None False by (simp add: misplacedStep_pair js_get_def)
    next
      case (Some i)
      then have i: "i < length C" "C ! i = g" using findIndex_Some by fastforce+
      have mem: "g \<in># ?M" using i False by (auto simp: in_set_conv_nth)
      have upd: "filter_mset (\<lambda>c. c \<noteq> Null) (mset (js_store Undefined C i Null)) = ?M - {#g#}"
        using mset_consume [OF i False] i(1) by (simp add: js_store_def)
      have "size (add_mset g ?A \<inter># ?M) = Suc (size (?A \<inter># (?M - {#g#})))"
        using mem by (simp add: inter_add_left2)
      then show ?thesis
        using Cons.IH [of "m + 1" "js_store Undefined C i Null"] Some False upd
        by (simp add: misplacedStep_pair js_get_def)
    qed
  qed
qed

lemma zip_as_map:
  assumes "length guess = length code"
  shows "zip guess code = map (\<lambda>i. (guess ! i, code ! i)) [0..<length guess]"
  using assms by (auto intro!: nth_equalityI)

lemma blanked_guess:
  assumes "length guess = length code"
  shows "map (\<lambda>i. if i < length guess \<and> guess ! i = code ! i then Null else guess ! i) [0..<length guess]
       = map (\<lambda>(g, c). if g = c then Null else g) (zip guess code)"
  using assms by (auto intro!: nth_equalityI)

lemma blanked_code:
  assumes "length guess = length code"
  shows "map (\<lambda>i. if i < length guess \<and> guess ! i = code ! i then Null else code ! i) [0..<length code]
       = map (\<lambda>(g, c). if g = c then Null else c) (zip guess code)"
  using assms by (auto intro!: nth_equalityI)

lemma unmatched_guess:
  "filter (\<lambda>g. g \<noteq> Null) (map (\<lambda>(g, c). if g = c then Null else g) zs)
     = map fst (filter (\<lambda>(g, c). g \<noteq> c \<and> g \<noteq> Null) zs)"
  by (induction zs) auto

lemma unmatched_code_mset:
  "filter_mset (\<lambda>c. c \<noteq> Null) (mset (map (\<lambda>(g, c). if g = c then Null else c) zs))
     = filter_mset (\<lambda>c. c \<noteq> Null) (mset (map snd (filter (\<lambda>(g, c). g \<noteq> c) zs)))"
  by (induction zs) auto

lemma inter_filter_right:
  assumes "\<forall>x\<in>#A. P x"
  shows "A \<inter># filter_mset P M = A \<inter># M"
proof (rule multiset_eqI)
  fix x
  show "count (A \<inter># filter_mset P M) x = count (A \<inter># M) x"
    using assms by (cases "x \<in># A") (auto simp: not_in_iff)
qed

lemma checkGuess_unfold:
  assumes "length guess = codeLength cfg" "length code = codeLength cfg"
  shows "checkGuess cfg guess code =
     \<lparr>correct = length (filter (\<lambda>(g, c). g = c) (zip guess code)),
      misplaced = size (mset (map fst (filter (\<lambda>(g, c). g \<noteq> c \<and> g \<noteq> Null) (zip guess code)))
                        \<inter># mset (map snd (filter (\<lambda>(g, c). g \<noteq> c) (zip guess code))))\<rparr>"
proof -
  let ?G = "map (\<lambda>(g, c). if g = c then Null else g) (zip guess code)"
  let ?C = "map (\<lambda>(g, c). if g = c then Null else c) (zip guess code)"
  have len: "length guess = length code" using assms by simp
  have "foldl correctStep (0, guess, code) [0..<length guess] =
           (length (filter (\<lambda>i. guess ! i = code ! i) [0..<length guess]), ?G, ?C)"
    unfolding correct_loop [OF len order_refl] blanked_guess [OF len] blanked_code [OF len]
    by (rule refl)
  then have p1: "foldl correctStep (0, guess, code) [0..<codeLength cfg] =
           (length (filter (\<lambda>i. guess ! i = code ! i) [0..<length guess]), ?G, ?C)"
    by (simp only: assms(1))
  have lg: "length ?G = codeLength cfg"
    using assms by simp
  have p2: "foldl (misplacedStep ?G) acc [0..<codeLength cfg]
          = foldl (\<lambda>a g. misplacedStep [g] a 0) acc ?G" for acc
    using misplaced_loop_elems [of ?G acc] lg by simp
  have c: "length (filter (\<lambda>i. guess ! i = code ! i) [0..<length guess])
         = length (filter (\<lambda>(g, c). g = c) (zip guess code))"
    by (simp add: zip_as_map [OF len] filter_map comp_def)
  have "fst (foldl (\<lambda>a g. misplacedStep [g] a 0) (0, ?C) ?G)
      = size (mset (map fst (filter (\<lambda>(g, c). g \<noteq> c \<and> g \<noteq> Null) (zip guess code)))
               \<inter># filter_mset (\<lambda>c. c \<noteq> Null) (mset (map snd (filter (\<lambda>(g, c). g \<noteq> c) (zip guess code)))))"
    unfolding misplaced_elems unmatched_guess unmatched_code_mset
    by simp
  also have "\<dots> = size (mset (map fst (filter (\<lambda>(g, c). g \<noteq> c \<and> g \<noteq> Null) (zip guess code)))
               \<inter># mset (map snd (filter (\<lambda>(g, c). g \<noteq> c) (zip guess code))))"
    by (subst inter_filter_right) auto
  finally have m: "fst (foldl (\<lambda>a g. misplacedStep [g] a 0) (0, ?C) ?G)
     = size (mset (map fst (filter (\<lambda>(g, c). g \<noteq> c \<and> g \<noteq> Null) (zip guess code)))
               \<inter># mset (map snd (filter (\<lambda>(g, c). g \<noteq> c) (zip guess code))))" .
  have "checkGuess cfg guess code =
     \<lparr>correct = length (filter (\<lambda>i. guess ! i = code ! i) [0..<length guess]),
      misplaced = fst (foldl (\<lambda>a g. misplacedStep [g] a 0) (0, ?C) ?G)\<rparr>"
    by (simp add: checkGuess_def p1 p2 split_beta)
  then show ?thesis
    by (simp only: c m)
qed

lemma card_positions:
  assumes "length guess = length code"
  shows "card {i. i < length guess \<and> guess ! i = code ! i}
       = length (filter (\<lambda>(g, c). g = c) (zip guess code))"
proof -
  have "{i. i < length guess \<and> guess ! i = code ! i}
      = set (filter (\<lambda>i. guess ! i = code ! i) [0..<length guess])"
    by auto
  then have "card {i. i < length guess \<and> guess ! i = code ! i}
      = card (set (filter (\<lambda>i. guess ! i = code ! i) [0..<length guess]))"
    by (rule arg_cong)
  also have "\<dots> = length (filter (\<lambda>i. guess ! i = code ! i) [0..<length guess])"
    by (rule distinct_card) simp
  also have "\<dots> = length (filter (\<lambda>(g, c). g = c) (zip guess code))"
    by (simp add: zip_as_map [OF assms] filter_map comp_def)
  finally show ?thesis .
qed

lemma checkGuess_example:
  "codeLength cfg = 4 \<Longrightarrow>
   checkGuess cfg [Color ''#FF5252'', Color ''#4CAF50'', Color ''#2196F3'', Color ''#2196F3'']
                  [Color ''#FF5252'', Color ''#2196F3'', Color ''#4CAF50'', Color ''#4CAF50'']
     = \<lparr>correct = 1, misplaced = 2\<rparr>"
  by (simp add: checkGuess_def upt_rec correctStep_def misplacedStep_def js_get_def js_store_def)

text \<open>
  C3.  For a guess and a code of length \<open>codeLength\<close>, \<^verbatim>\<open>checkGuess\<close> returns as \<open>correct\<close> the
  number of positions where the two agree, and as \<open>misplaced\<close> the size of the multiset
  intersection of the guess slots and the code slots left at the other positions (blank guess
  slots aside): every remaining code slot answers at most one remaining guess slot.  The two
  counts never exceed \<open>codeLength\<close> together.  Red, green, blue, blue against red, blue,
  green, green scores 1 correct and 2 misplaced.  The function copies its arguments and
  depends on nothing else, so scoring the same pair again gives the same feedback.
\<close>

theorem checkGuess_two_pass:
  assumes "length guess = codeLength cfg" and "length code = codeLength cfg"
  shows "correct (checkGuess cfg guess code)
           = card {i. i < codeLength cfg \<and> guess ! i = code ! i}
       \<and> misplaced (checkGuess cfg guess code)
           = size (mset (map fst (filter (\<lambda>(g, c). g \<noteq> c \<and> g \<noteq> Null) (zip guess code)))
                   \<inter># mset (map snd (filter (\<lambda>(g, c). g \<noteq> c) (zip guess code))))
       \<and> correct (checkGuess cfg guess code) + misplaced (checkGuess cfg guess code)
           \<le> codeLength cfg
       \<and> (codeLength cfg = 4 \<longrightarrow>
            checkGuess cfg [Color ''#FF5252'', Color ''#4CAF50'', Color ''#2196F3'', Color ''#2196F3'']
                           [Color ''#FF5252'', Color ''#2196F3'', Color ''#4CAF50'', Color ''#4CAF50'']
              = \<lparr>correct = 1, misplaced = 2\<rparr>)"
proof -
  let ?zs = "zip guess code"
  let ?rest = "filter (\<lambda>(g, c). g \<noteq> c) ?zs"
  have len: "length guess = length code" using assms by simp
  note u = checkGuess_unfold [OF assms]
  have c: "correct (checkGuess cfg guess code) = card {i. i < codeLength cfg \<and> guess ! i = code ! i}"
    using card_positions [OF len] assms(1) by (simp add: u)
  have m: "misplaced (checkGuess cfg guess code)
           = size (mset (map fst (filter (\<lambda>(g, c). g \<noteq> c \<and> g \<noteq> Null) ?zs)) \<inter># mset (map snd ?rest))"
    by (simp add: u)
  have "misplaced (checkGuess cfg guess code) \<le> size (mset (map snd ?rest))"
    unfolding m by (rule size_mset_mono) simp
  also have "\<dots> = length ?rest"
    by (simp only: size_mset length_map)
  finally have m_le: "misplaced (checkGuess cfg guess code) \<le> length ?rest" .
  have "?rest = filter (\<lambda>z. \<not> (case z of (g, c) \<Rightarrow> g = c)) ?zs"
    by (rule filter_cong) auto
  then have "length (filter (\<lambda>(g, c). g = c) ?zs) + length ?rest = length ?zs"
    by (simp only: sum_length_filter_compl)
  moreover have "correct (checkGuess cfg guess code) = length (filter (\<lambda>(g, c). g = c) ?zs)"
    by (simp add: u)
  moreover have "length ?zs = codeLength cfg"
    using assms by simp
  ultimately have b: "correct (checkGuess cfg guess code) + misplaced (checkGuess cfg guess code)
        \<le> codeLength cfg"
    using m_le by linarith
  have e: "codeLength cfg = 4 \<longrightarrow>
            checkGuess cfg [Color ''#FF5252'', Color ''#4CAF50'', Color ''#2196F3'', Color ''#2196F3'']
                           [Color ''#FF5252'', Color ''#2196F3'', Color ''#4CAF50'', Color ''#4CAF50'']
              = \<lparr>correct = 1, misplaced = 2\<rparr>"
    using checkGuess_example [of cfg] by blast
  from c m b e show ?thesis by (intro conjI)
qed

theorem checkGuess_two_pass_witness:
  "length [Color ''#FF5252'', Color ''#4CAF50'', Color ''#2196F3'', Color ''#2196F3'']
     = codeLength \<lparr>difficulty = Easy, duration = 30000, soundEnabled = True, codeLength = 4, attempts = 6\<rparr>
   \<and> correct (checkGuess \<lparr>difficulty = Easy, duration = 30000, soundEnabled = True, codeLength = 4, attempts = 6\<rparr>
        [Color ''#FF5252'', Color ''#4CAF50'', Color ''#2196F3'', Color ''#2196F3'']
        [Color ''#FF5252'', Color ''#2196F3'', Color ''#4CAF50'', Color ''#4CAF50''])
     + misplaced (checkGuess \<lparr>difficulty = Easy, duration = 30000, soundEnabled = True, codeLength = 4, attempts = 6\<rparr>
        [Color ''#FF5252'', Color ''#4CAF50'', Color ''#2196F3'', Color ''#2196F3'']
        [Color ''#FF5252'', Color ''#2196F3'', Color ''#4CAF50'', Color ''#4CAF50'']) \<le> 4
   \<and> checkGuess \<lparr>difficulty = Easy, duration = 30000, soundEnabled = True, codeLength = 4, attempts = 6\<rparr>
        [Color ''#FF5252'', Color ''#4CAF50'', Color ''#2196F3'', Color ''#2196F3'']
        [Color ''#FF5252'', Color ''#2196F3'', Color ''#4CAF50'', Color ''#4CAF50'']
       = \<lparr>correct = 1, misplaced = 2\<rparr>"
  using checkGuess_two_pass
    [of "[Color ''#FF5252'', Color ''#4CAF50'', Color ''#2196F3'', Color ''#2196F3'']"
        "\<lparr>difficulty = Easy, duration = 30000, soundEnabled = True, codeLength = 4, attempts = 6\<rparr>"
        "[Color ''#FF5252'', Color ''#2196F3'', Color ''#4CAF50'', Color ''#4CAF50'']"]
  by simp

text \<open>
  C8.  While the game is being played, submitting a guess that still has an unfilled
  (\<^verbatim>\<open>null\<close>) slot leaves every variable of the component as it was: the attempt counter, the
  attempts history, the feedback, the current guess, the selected position, the phase, the
  timer and the scheduled callbacks.
\<close>

theorem submitGuess_incomplete_rejected:
  assumes "gameState st = Playing" and "Null \<in> set (currentGuess st)"
  shows "submitGuess cfg st = st"
  using assms by (simp add: submitGuess_def)

theorem submitGuess_incomplete_rejected_witness:
  "gameState (cc_onMount \<lparr>difficulty = Easy, duration = 30000, soundEnabled = True, codeLength = 4, attempts = 6\<rparr> [0, 1, 2, 3] 0) = Playing
   \<and> Null \<in> set (currentGuess (cc_onMount \<lparr>difficulty = Easy, duration = 30000, soundEnabled = True, codeLength = 4, attempts = 6\<rparr> [0, 1, 2, 3] 0))
   \<and> submitGuess \<lparr>difficulty = Easy, duration = 30000, soundEnabled = True, codeLength = 4, attempts = 6\<rparr>
        (cc_onMount \<lparr>difficulty = Easy, duration = 30000, soundEnabled = True, codeLength = 4, attempts = 6\<rparr> [0, 1, 2, 3] 0)
      = cc_onMount \<lparr>difficulty = Easy, duration = 30000, soundEnabled = True, codeLength = 4, attempts = 6\<rparr> [0, 1, 2, 3] 0"
proof -
  let ?cfg = "\<lparr>difficulty = Easy, duration = 30000, soundEnabled = True, codeLength = 4, attempts = 6\<rparr>"
  have p: "gameState (cc_onMount ?cfg [0, 1, 2, 3] 0) = Playing"
    by (simp add: cc_onMount_def cc_startGame_def)
  have n: "Null \<in> set (currentGuess (cc_onMount ?cfg [0, 1, 2, 3] 0))"
    by (simp add: cc_onMount_def cc_startGame_def resetGame_def)
  show ?thesis
    using p n submitGuess_incomplete_rejected [OF p n, of ?cfg] by simp
qed

section \<open>The countdown timer\<close>

lemma stop_idem: "stop (stop t) = stop t"
  by (simp add: stop_def split: option.splits)

lemma fire_unregistered: "h \<notin> set (registered t) \<Longrightarrow> fire h now t = (t, [])"
  by (simp add: fire_def)

lemma fireAll_unregistered: "h \<notin> set (registered t) \<Longrightarrow> fireAll h nows t = (t, [])"
  by (induction nows) (simp_all add: fire_unregistered)

text \<open>A timer with one live interval, the one it holds the handle of.\<close>

lemma fire_running:
  assumes "timerInterval t = Some h" "h \<noteq> 0" "registered t = [h]"
  shows "fire h now t =
           (if timerDuration t - (now - startTime t) \<le> 0
            then (t\<lparr>timerInterval := None, registered := []\<rparr>, [Update 0, Complete])
            else (t, [Update (timerDuration t - (now - startTime t))]))"
  using assms by (simp add: fire_def tick_def stop_def Let_def max_def)

lemma fireAll_running:
  assumes "timerInterval t = Some h" "h \<noteq> 0" "registered t = [h]"
  shows "count_list (snd (fireAll h nows t)) Complete
           = (if \<exists>now\<in>set nows. timerDuration t - (now - startTime t) \<le> 0 then 1 else 0)
       \<and> (if \<exists>now\<in>set nows. timerDuration t - (now - startTime t) \<le> 0
            then fst (fireAll h nows t) = t\<lparr>timerInterval := None, registered := []\<rparr>
            else fst (fireAll h nows t) = t)"
  using assms
proof (induction nows)
  case Nil
  then show ?case by simp
next
  case (Cons now nows)
  show ?case
  proof (cases "timerDuration t - (now - startTime t) \<le> 0")
    case True
    let ?t' = "t\<lparr>timerInterval := None, registered := []\<rparr>"
    have f: "fire h now t = (?t', [Update 0, Complete])"
      using fire_running [OF Cons.prems] True by simp
    have "fireAll h nows ?t' = (?t', [])"
      by (rule fireAll_unregistered) simp
    then show ?thesis using f True by simp
  next
    case False
    have f: "fire h now t = (t, [Update (timerDuration t - (now - startTime t))])"
      using fire_running [OF Cons.prems] False by simp
    show ?thesis using Cons.IH [OF Cons.prems] f False
      by (auto simp: split_beta)
  qed
qed

lemma started_running:
  "timerInterval (start s (newTimer d c)) = Some 1 \<and> registered (start s (newTimer d c)) = [1]
   \<and> startTime (start s (newTimer d c)) = s \<and> timerDuration (start s (newTimer d c)) = d"
  by (simp add: start_def newTimer_def)

text \<open>
  C9.  A countdown of duration \<open>d\<close> created at time \<open>c\<close> and started at time \<open>s\<close>.  A tick at
  time \<open>now\<close> reports \<open>max 0 (d - (now - s))\<close>, and completes and stops the timer when that is
  0; the reported value is never negative and does not grow when the clock advances.  However
  often the host lets the interval come due, the completion callback runs once if some tick
  finds the time used up and never otherwise, and after it the timer holds no handle and the
  host no interval.  \<^verbatim>\<open>stop\<close> of a stopped timer changes nothing.
\<close>

theorem countdown_contract:
  "fst (tick now (start s (newTimer d c)))
      = (if d - (now - s) \<le> 0 then stop (start s (newTimer d c)) else start s (newTimer d c))
   \<and> snd (tick now (start s (newTimer d c)))
      = Update (max 0 (d - (now - s))) # (if max 0 (d - (now - s)) \<le> 0 then [Complete] else [])
   \<and> 0 \<le> max 0 (d - (now - s))
   \<and> (now \<le> now' \<longrightarrow> max 0 (d - (now' - s)) \<le> max 0 (d - (now - s)))
   \<and> count_list (snd (fireAll 1 nows (start s (newTimer d c)))) Complete
        = (if \<exists>now\<in>set nows. d - (now - s) \<le> 0 then 1 else 0)
   \<and> ((\<exists>now\<in>set nows. d - (now - s) \<le> 0) \<longrightarrow>
         timerInterval (fst (fireAll 1 nows (start s (newTimer d c)))) = None
         \<and> registered (fst (fireAll 1 nows (start s (newTimer d c)))) = [])
   \<and> stop (stop t) = stop t"
proof -
  let ?t = "start s (newTimer d c)"
  note r = started_running [of s d c]
  have a: "fst (tick now ?t) = (if d - (now - s) \<le> 0 then stop ?t else ?t)"
    using r by (simp add: tick_def Let_def)
  have b: "snd (tick now ?t)
      = Update (max 0 (d - (now - s))) # (if max 0 (d - (now - s)) \<le> 0 then [Complete] else [])"
    using r by (simp add: tick_def Let_def)
  have e: "count_list (snd (fireAll 1 nows ?t)) Complete
        = (if \<exists>now\<in>set nows. d - (now - s) \<le> 0 then 1 else 0)"
    using fireAll_running [of ?t 1 nows] r by simp
  have f: "(\<exists>now\<in>set nows. d - (now - s) \<le> 0) \<longrightarrow>
         timerInterval (fst (fireAll 1 nows ?t)) = None \<and> registered (fst (fireAll 1 nows ?t)) = []"
    using fireAll_running [of ?t 1 nows] r by (auto split: if_splits)
  have g: "now \<le> now' \<longrightarrow> max 0 (d - (now' - s)) \<le> max 0 (d - (now - s))" by auto
  show ?thesis using a b e f g stop_idem [of t] by (intro conjI) simp_all
qed

theorem countdown_contract_witness:
  "snd (tick 120 (start 100 (newTimer 50 90))) = [Update 30]
   \<and> snd (tick 150 (start 100 (newTimer 50 90))) = [Update 0, Complete]
   \<and> count_list (snd (fireAll 1 [110, 120, 150, 160, 170] (start 100 (newTimer 50 90)))) Complete = 1
   \<and> timerInterval (fst (fireAll 1 [110, 120, 150, 160, 170] (start 100 (newTimer 50 90)))) = None
   \<and> registered (fst (fireAll 1 [110, 120, 150, 160, 170] (start 100 (newTimer 50 90)))) = []"
  using countdown_contract [of 120 100 50 90 120 "[110, 120, 150, 160, 170]"]
    countdown_contract [of 150 100 50 90 150 "[110, 120, 150, 160, 170]"]
  by simp

section \<open>Facts shared by the sessions\<close>

lemma stop_started: "registered (stop (start s (newTimer d c))) = []"
  by (simp add: stop_def start_def newTimer_def)

section \<open>Safe Cracker: the generated zones\<close>

lemma Rep_draw_range: "0 \<le> Rep_draw u \<and> Rep_draw u < 1"
  using Rep_draw [of u] by simp

lemma getRandomInt_range:
  assumes "lo \<le> hi"
  shows "lo \<le> getRandomInt lo hi u \<and> getRandomInt lo hi u \<le> hi"
proof -
  let ?k = "hi - lo + 1"
  have k: "0 < (of_int ?k :: real)" using assms by simp
  have "0 \<le> Rep_draw u * of_int ?k"
    using Rep_draw_range [of u] k by simp
  then have lo: "0 \<le> \<lfloor>Rep_draw u * of_int ?k\<rfloor>" by simp
  have "Rep_draw u * of_int ?k < of_int ?k"
    using Rep_draw_range [of u] k by simp
  then have "\<lfloor>Rep_draw u * of_int ?k\<rfloor> < ?k" by (rule floor_less_iff [THEN iffD2])
  with lo show ?thesis by (simp add: getRandomInt_def)
qed

lemma findPosition_free:
  assumes "findPosition zoneSize zs us = Some (p, us')" "zoneSize \<le> 360"
  shows "\<not> overlapsAny p zoneSize zs \<and> 0 \<le> p \<and> p + zoneSize \<le> 360"
  using assms
proof (induction us)
  case Nil
  then show ?case by simp
next
  case (Cons u us)
  show ?case
  proof (cases "overlapsAny (getRandomInt 0 (TOTAL_DEGREES - zoneSize) u) zoneSize zs")
    case True
    then show ?thesis using Cons by (simp add: Let_def)
  next
    case False
    then have p: "p = getRandomInt 0 (TOTAL_DEGREES - zoneSize) u"
      using Cons.prems(1) by (simp add: Let_def)
    have "0 \<le> p \<and> p \<le> 360 - zoneSize"
      unfolding p using getRandomInt_range [of 0 "TOTAL_DEGREES - zoneSize" u] Cons.prems(2)
      by (simp add: TOTAL_DEGREES_def)
    then show ?thesis using False p by auto
  qed
qed

text \<open>A candidate that the overlap test lets through lies strictly apart from every zone.\<close>

lemma overlapsAny_apart:
  assumes "\<not> overlapsAny p w zs" "0 \<le> w" "z \<in> set zs" "zoneStart z \<le> zoneEnd z"
  shows "zoneEnd z < p \<or> p + w < zoneStart z"
  using assms by (auto simp: overlapsAny_def list_ex_iff)

lemma goodZones_snoc:
  assumes "goodZones zs" "\<not> overlapsAny p w zs" "10 \<le> w" "0 \<le> p" "p + w \<le> 360"
  shows "goodZones (zs @ [\<lparr>zoneStart = p, zoneEnd = p + w, found = False\<rparr>])"
proof -
  let ?z = "\<lparr>zoneStart = p, zoneEnd = p + w, found = False\<rparr>"
  have apart: "zoneEnd z < p \<or> p + w < zoneStart z" if "z \<in> set zs" for z
    using overlapsAny_apart [OF assms(2) _ that] assms(1,3) that by (auto simp: goodZones_def)
  have "zoneEnd ((zs @ [?z]) ! i) < zoneStart ((zs @ [?z]) ! j)
        \<or> zoneEnd ((zs @ [?z]) ! j) < zoneStart ((zs @ [?z]) ! i)"
    if "i < length (zs @ [?z])" "j < length (zs @ [?z])" "i \<noteq> j" for i j
  proof -
    have ij: "i < length zs \<or> i = length zs" "j < length zs \<or> j = length zs"
      using that by auto
    show ?thesis
    proof (cases "i < length zs")
      case True
      show ?thesis
      proof (cases "j < length zs")
        case j: True
        then show ?thesis using True assms(1) that(3) by (simp add: goodZones_def nth_append)
      next
        case False
        then have "j = length zs" using ij by simp
        then show ?thesis using True apart [of "zs ! i"] by (auto simp: nth_append)
      qed
    next
      case False
      then have i: "i = length zs" using ij by simp
      then have j: "j < length zs" using ij that(3) by auto
      show ?thesis using i j apart [of "zs ! j"] by (auto simp: nth_append)
    qed
  qed
  moreover have "\<forall>z\<in>set (zs @ [?z]). 0 \<le> zoneStart z \<and> zoneStart z + 10 \<le> zoneEnd z \<and> zoneEnd z \<le> 360"
    using assms by (auto simp: goodZones_def)
  ultimately show ?thesis unfolding goodZones_def by blast
qed

lemma placeZones_good:
  "placeZones n zs us = Some zs' \<Longrightarrow> goodZones zs \<Longrightarrow> goodZones zs' \<and> length zs' = length zs + n"
proof (induction n zs us arbitrary: zs' rule: placeZones.induct)
  case (1 zs us)
  then show ?case by simp
next
  case (2 n zs)
  then show ?case by simp
next
  case (3 n zs u us)
  let ?w = "getRandomInt MIN_ZONE_SIZE MAX_ZONE_SIZE u"
  have w: "10 \<le> ?w \<and> ?w \<le> 30"
    using getRandomInt_range [of MIN_ZONE_SIZE MAX_ZONE_SIZE u]
    by (simp add: MIN_ZONE_SIZE_def MAX_ZONE_SIZE_def)
  from "3.prems"(1) obtain p us' where
    f: "findPosition ?w zs us = Some (p, us')" and
    r: "placeZones n (zs @ [\<lparr>zoneStart = p, zoneEnd = p + ?w, found = False\<rparr>]) us' = Some zs'"
    by (auto simp: Let_def split: option.splits)
  have fp: "\<not> overlapsAny p ?w zs \<and> 0 \<le> p \<and> p + ?w \<le> 360"
    using findPosition_free [OF f] w by simp
  have g: "goodZones (zs @ [\<lparr>zoneStart = p, zoneEnd = p + ?w, found = False\<rparr>])"
    using goodZones_snoc [OF "3.prems"(2)] fp w by simp
  show ?case using "3.IH" [OF refl f refl r g] by simp
qed


text \<open>
  C6 (amended).  When \<^verbatim>\<open>generateSuccessZones\<close> returns, it has placed \<^verbatim>\<open>config.zones\<close> zones;
  every zone starts at 0 or later, is at least 10 degrees wide and ends at 360 or earlier;
  and of any two zones one ends strictly before the other starts.
\<close>

theorem zones_disjoint_within_dial:
  assumes "generateSuccessZones cfg us = Some zs"
  shows "length zs = zones cfg
       \<and> (\<forall>z\<in>set zs. 0 \<le> zoneStart z \<and> zoneStart z + 10 \<le> zoneEnd z \<and> zoneEnd z \<le> 360)
       \<and> (\<forall>i<length zs. \<forall>j<length zs. i \<noteq> j \<longrightarrow>
             zoneEnd (zs ! i) < zoneStart (zs ! j) \<or> zoneEnd (zs ! j) < zoneStart (zs ! i))"
proof -
  have "goodZones []" by (simp add: goodZones_def)
  then have "goodZones zs \<and> length zs = length ([] :: Zone list) + zones cfg"
    using assms unfolding generateSuccessZones_def by (rule placeZones_good [rotated])
  then show ?thesis by (simp add: goodZones_def)
qed

lemma example_draws:
  "Rep_draw (Abs_draw 0) = 0" "Rep_draw (Abs_draw (1 / 2)) = 1 / 2"
  "Rep_draw (Abs_draw (999 / 1000)) = 999 / 1000"
  by (simp_all add: Abs_draw_inverse)

lemma example_zones:
  "generateSuccessZones \<lparr>difficulty = Normal, duration = 30000, soundEnabled = True, maxRotations = 2, zones = 2\<rparr>
     [Abs_draw 0, Abs_draw 0, Abs_draw (1 / 2), Abs_draw 0, Abs_draw (1 / 2)]
   = Some [\<lparr>zoneStart = 0, zoneEnd = 10, found = False\<rparr>, \<lparr>zoneStart = 170, zoneEnd = 190, found = False\<rparr>]"
  by (simp add: generateSuccessZones_def numeral_2_eq_2 getRandomInt_def example_draws
      MIN_ZONE_SIZE_def MAX_ZONE_SIZE_def TOTAL_DEGREES_def overlapsAny_def)

theorem zones_disjoint_within_dial_witness:
  "generateSuccessZones \<lparr>difficulty = Normal, duration = 30000, soundEnabled = True, maxRotations = 2, zones = 2\<rparr>
     [Abs_draw 0, Abs_draw 0, Abs_draw (1 / 2), Abs_draw 0, Abs_draw (1 / 2)]
   = Some [\<lparr>zoneStart = 0, zoneEnd = 10, found = False\<rparr>, \<lparr>zoneStart = 170, zoneEnd = 190, found = False\<rparr>]
   \<and> length [\<lparr>zoneStart = 0, zoneEnd = 10, found = False\<rparr>, \<lparr>zoneStart = 170, zoneEnd = 190, found = False\<rparr>]
       = zones \<lparr>difficulty = Normal, duration = 30000, soundEnabled = True, maxRotations = 2, zones = 2\<rparr>
   \<and> zoneEnd \<lparr>zoneStart = 0, zoneEnd = 10, found = False\<rparr>
       < zoneStart \<lparr>zoneStart = 170, zoneEnd = 190, found = False\<rparr>"
  using example_zones zones_disjoint_within_dial [OF example_zones]
  by simp

text \<open>C6 as stated fails: a zone of width 10 placed at the largest start position ends at
  360, which is not below 360.\<close>

theorem zone_end_reaches_360:
  "generateSuccessZones \<lparr>difficulty = Normal, duration = 30000, soundEnabled = True, maxRotations = 2, zones = 1\<rparr>
     [Abs_draw 0, Abs_draw (999 / 1000)]
   = Some [\<lparr>zoneStart = 350, zoneEnd = 360, found = False\<rparr>]
   \<and> \<not> zoneEnd \<lparr>zoneStart = 350, zoneEnd = 360, found = False\<rparr> < 360"
  by (simp add: generateSuccessZones_def getRandomInt_def example_draws
      MIN_ZONE_SIZE_def MAX_ZONE_SIZE_def TOTAL_DEGREES_def overlapsAny_def)

section \<open>Circuit Solver: power propagation terminates\<close>

text \<open>Every recursive call of \<^verbatim>\<open>propagatePower\<close> is made on a grid in which one more piece
  has power, and no call takes power away: the number of pieces without power decreases.\<close>

lemma finite_unpowered: "finite (unpowered g)"
proof -
  have "unpowered g \<subseteq> (SIGMA r:{..<length g}. {..<length (g ! r)})"
    by (auto simp: unpowered_def cell_def split: if_splits)
  then show ?thesis by (rule finite_subset) simp
qed

lemma cell_setPowered:
  "cell (setPowered g r c) r' c' =
     (if r' = r \<and> c' = c then map_option (\<lambda>p. p\<lparr>powered := True\<rparr>) (cell g r c) else cell g r' c')"
  by (auto simp: cell_def setPowered_def nth_list_update)

lemma unpowered_setPowered: "unpowered (setPowered g r c) = unpowered g - {(r, c)}"
  by (auto simp: unpowered_def cell_setPowered split: if_splits)


lemma unpoweredLink_mem: "unpoweredLink g r c sel \<Longrightarrow> (r, c) \<in> unpowered g"
  by (auto simp: unpoweredLink_def unpowered_def split: option.splits)

lemma card_unpowered_setPowered:
  assumes "unpoweredLink a r c sel" "unpowered a \<subseteq> unpowered g"
  shows "card (unpowered (setPowered a r c)) < card (unpowered g)"
proof -
  have "unpowered (setPowered a r c) \<subset> unpowered a"
    using unpoweredLink_mem [OF assms(1)] by (auto simp: unpowered_setPowered)
  then have "unpowered (setPowered a r c) \<subset> unpowered g" using assms(2) by auto
  then show ?thesis by (rule psubset_card_mono [OF finite_unpowered])
qed

lemma step_unpowered:
  assumes "cond \<Longrightarrow> unpowered b \<subseteq> unpowered (setPowered a r c)"
    and "unpowered a \<subseteq> unpowered g"
  shows "unpowered (if cond then b else a) \<subseteq> unpowered g"
  using assms by (auto simp: unpowered_setPowered)

lemma propagatePower_unpowered:
  "propagatePower_dom (g, r, c) \<Longrightarrow> unpowered (propagatePower g r c) \<subseteq> unpowered g"
proof (induction g r c rule: propagatePower.pinduct)
  case (1 g row col)
  show ?case
  proof (cases "cell g row col")
    case None
    then show ?thesis by (simp add: propagatePower.psimps [OF 1(1)])
  next
    case (Some piece)
    show ?thesis
    proof (cases "powered piece")
      case False
      then show ?thesis using Some by (simp add: propagatePower.psimps [OF 1(1)])
    next
      case True
      define g1 where "g1 = (if top_conn (connections piece) \<and> row > 0
                         \<and> unpoweredLink g (row - 1) col bottom_conn
                      then propagatePower (setPowered g (row - 1) col) (row - 1) col else g)"
      define g2 where "g2 = (if right_conn (connections piece) \<and> col + 1 < length (g1 ! 0)
                         \<and> unpoweredLink g1 row (col + 1) left_conn
                      then propagatePower (setPowered g1 row (col + 1)) row (col + 1) else g1)"
      define g3 where "g3 = (if bottom_conn (connections piece) \<and> row + 1 < length g2
                         \<and> unpoweredLink g2 (row + 1) col top_conn
                      then propagatePower (setPowered g2 (row + 1) col) (row + 1) col else g2)"
      define g4 where "g4 = (if left_conn (connections piece) \<and> col > 0
                         \<and> unpoweredLink g3 row (col - 1) right_conn
                      then propagatePower (setPowered g3 row (col - 1)) row (col - 1) else g3)"
      have r: "propagatePower g row col = g4"
        unfolding g4_def g3_def g2_def g1_def
        by (subst propagatePower.psimps [OF 1(1)])
           (simp only: Some option.case True not_True_eq_False if_False Let_def)
      have T: "\<not> \<not> powered piece" using True by simp
      have u1: "unpowered g1 \<subseteq> unpowered g"
        unfolding g1_def
        by (rule step_unpowered [OF "1.IH"(1) [OF Some T]]) auto
      have u2: "unpowered g2 \<subseteq> unpowered g"
        unfolding g2_def
        by (rule step_unpowered [OF "1.IH"(2) [OF Some T g1_def] u1])
      have u3: "unpowered g3 \<subseteq> unpowered g"
        unfolding g3_def
        by (rule step_unpowered [OF "1.IH"(3) [OF Some T g1_def g2_def] u2])
      have u4: "unpowered g4 \<subseteq> unpowered g"
        unfolding g4_def
        by (rule step_unpowered [OF "1.IH"(4) [OF Some T g1_def g2_def g3_def] u3])
      show ?thesis using r u4 by simp
    qed
  qed
qed


lemma measure_step:
  assumes "unpoweredLink a r c sel" "unpowered a \<subseteq> unpowered g"
  shows "((setPowered a r c, r, c), (g, row, col)) \<in> measure (\<lambda>(g, r, c). card (unpowered g))"
  using card_unpowered_setPowered [OF assms] by simp

lemma step_dom_unpowered:
  assumes "x = (if cond then propagatePower (setPowered a r c) r c else a)"
    and "cond \<Longrightarrow> propagatePower_dom (setPowered a r c, r, c)"
    and "unpowered a \<subseteq> unpowered g"
  shows "unpowered x \<subseteq> unpowered g"
  unfolding assms(1)
  by (rule step_unpowered [OF propagatePower_unpowered [OF assms(2)] assms(3)])

termination propagatePower
proof (relation "measure (\<lambda>(g, r, c). card (unpowered g))", goal_cases)
  case 1
  show ?case by (rule wf_measure)
next
  case (2 g row col x2)
  then show ?case
    by (intro measure_step [where sel = bottom_conn]) auto
next
  case (3 g row col x2 x)
  have "unpowered x \<subseteq> unpowered g"
    by (rule step_dom_unpowered [OF "3"(3) "3"(5) subset_refl])
  with "3"(4) show ?case
    by (intro measure_step [where sel = left_conn]) auto
next
  case (4 g row col x2 x xa)
  have u1: "unpowered x \<subseteq> unpowered g"
    by (rule step_dom_unpowered [OF "4"(3) "4"(7) subset_refl])
  have "unpowered xa \<subseteq> unpowered g"
    by (rule step_dom_unpowered [OF "4"(4) "4"(6) u1])
  with "4"(5) show ?case
    by (intro measure_step [where sel = top_conn]) auto
next
  case (5 g row col x2 x xa xb)
  have u1: "unpowered x \<subseteq> unpowered g"
    by (rule step_dom_unpowered [OF "5"(3) "5"(9) subset_refl])
  have u2: "unpowered xa \<subseteq> unpowered g"
    by (rule step_dom_unpowered [OF "5"(4) "5"(8) u1])
  have "unpowered xb \<subseteq> unpowered g"
    by (rule step_dom_unpowered [OF "5"(5) "5"(7) u2])
  with "5"(6) show ?case
    by (intro measure_step [where sel = right_conn]) auto
qed

text \<open>The equation of \<^verbatim>\<open>propagatePower\<close> mentions the function again on its right-hand
  side; it is applied by hand, where it is wanted.\<close>

declare propagatePower.simps [simp del]

section \<open>Circuit Solver: power flow is reachability\<close>

lemma wiring_length:
  assumes "wiring g' = wiring g"
  shows "length g' = length g"
proof -
  have "length (wiring g') = length (wiring g)" using assms by simp
  then show ?thesis by (simp add: wiring_def)
qed

lemma wiring_row_length:
  assumes "wiring g' = wiring g" "r < length g"
  shows "length (g' ! r) = length (g ! r)"
proof -
  have "length (wiring g' ! r) = length (wiring g ! r)" using assms by simp
  then show ?thesis using assms wiring_length [OF assms(1)] by (simp add: wiring_def)
qed

lemma cell_wiring:
  "cell (wiring g) r c = map_option (\<lambda>p. p\<lparr>powered := False\<rparr>) (cell g r c)"
  by (auto simp: cell_def wiring_def)

lemma wiring_cell:
  assumes "wiring g' = wiring g"
  shows "map_option (\<lambda>p. p\<lparr>powered := False\<rparr>) (cell g' r c)
       = map_option (\<lambda>p. p\<lparr>powered := False\<rparr>) (cell g r c)"
proof -
  have "cell (wiring g') r c = cell (wiring g) r c" using assms by simp
  then show ?thesis by (simp only: cell_wiring)
qed

lemma wiring_cell_Some:
  assumes "wiring g' = wiring g" "cell g r c = Some p"
  shows "\<exists>p'. cell g' r c = Some p' \<and> connections p' = connections p \<and> ptype p' = ptype p
           \<and> rotation p' = rotation p \<and> fixed p' = fixed p"
proof -
  from wiring_cell [OF assms(1), of r c] assms(2)
  obtain p' where p': "cell g' r c = Some p'" "p'\<lparr>powered := False\<rparr> = p\<lparr>powered := False\<rparr>"
    by (cases "cell g' r c") auto
  from p'(2) have "connections p' = connections p \<and> ptype p' = ptype p
           \<and> rotation p' = rotation p \<and> fixed p' = fixed p"
    by (cases p, cases p') simp
  with p'(1) show ?thesis by blast
qed

lemma wiring_linked:
  assumes "wiring g' = wiring g"
  shows "linked g' = linked g"
proof (intro ext)
  fix a b
  have *: "linked h' a b" if "linked h a b" "wiring h' = wiring h" for h h'
  proof -
    from that(1) obtain p q where pq: "cell h (fst a) (snd a) = Some p" "cell h (fst b) (snd b) = Some q"
      by (auto simp: linked_def split: option.splits)
    from wiring_cell_Some [OF that(2) pq(1)] obtain p' where
      p': "cell h' (fst a) (snd a) = Some p'" "connections p' = connections p" by blast
    from wiring_cell_Some [OF that(2) pq(2)] obtain q' where
      q': "cell h' (fst b) (snd b) = Some q'" "connections q' = connections q" by blast
    show ?thesis using that(1) pq p' q' by (simp add: linked_def)
  qed
  show "linked g' a b = linked g a b"
    using * [of g g'] * [of g' g] assms by auto
qed

lemma wiring_reachable:
  assumes "wiring g' = wiring g"
  shows "reachable g' = reachable g"
  unfolding reachable_def wiring_linked [OF assms] by (rule refl)

lemma wiring_setPowered: "wiring (setPowered g r c) = wiring g"
proof (cases "r < length g")
  case False
  then show ?thesis by (simp add: setPowered_def list_update_beyond)
next
  case True
  have "map (map_option (\<lambda>p. p\<lparr>powered := False\<rparr>))
          ((g ! r)[c := map_option (\<lambda>p. p\<lparr>powered := True\<rparr>) (g ! r ! c)])
        = map (map_option (\<lambda>p. p\<lparr>powered := False\<rparr>)) (g ! r)"
    by (cases "c < length (g ! r)")
       (auto simp: map_update option.map_comp comp_def list_update_same_conv list_update_beyond)
  then show ?thesis using True
    by (simp add: wiring_def setPowered_def map_update list_update_same_conv)
qed

lemma poweredCells_setPowered:
  "cell g r c \<noteq> None \<Longrightarrow> poweredCells (setPowered g r c) = insert (r, c) (poweredCells g)"
  by (auto simp: poweredCells_def cell_setPowered split: if_splits)

lemma closedAt_mono:
  assumes "closedAt a v" "wiring b = wiring a" "poweredCells a \<subseteq> poweredCells b"
  shows "closedAt b v"
  using assms wiring_linked [of b a] by (auto simp: closedAt_def)

lemma reachable_step: "reachable g v n \<Longrightarrow> linked g n w \<Longrightarrow> reachable g v w"
  by (auto simp: reachable_def intro: rtrancl_into_rtrancl)

lemma reachable_refl: "reachable g v v"
  by (simp add: reachable_def)

lemma reachable_trans: "reachable g a b \<Longrightarrow> reachable g b c \<Longrightarrow> reachable g a c"
  by (auto simp: reachable_def)

text \<open>One direction of propagatePower: the grid \<open>b\<close> it leaves from the grid \<open>a\<close>.\<close>

lemma direction_step:
  assumes post: "cond \<Longrightarrow> dfsPost (setPowered a (fst n) (snd n)) n b'"
    and b: "b = (if cond then b' else a)"
    and link: "cond \<Longrightarrow> unpoweredLink a (fst n) (snd n) sel"
    and lk: "cond \<Longrightarrow> linked g v n"
    and wa: "wiring a = wiring g"
  shows "wiring b = wiring g \<and> poweredCells a \<subseteq> poweredCells b
       \<and> (\<forall>w\<in>poweredCells b - poweredCells a. reachable g v w \<and> closedAt b w)
       \<and> (cond \<longrightarrow> n \<in> poweredCells b)"
proof (cases cond)
  case False
  then show ?thesis using b wa by simp
next
  case True
  let ?m = "setPowered a (fst n) (snd n)"
  note p = post [OF True, unfolded dfsPost_def]
  have celln: "cell a (fst n) (snd n) \<noteq> None"
    using link [OF True] by (auto simp: unpoweredLink_def split: option.splits)
  have Pm: "poweredCells ?m = insert n (poweredCells a)"
    using poweredCells_setPowered [OF celln] by simp
  have wm: "wiring ?m = wiring g" using wa by (simp add: wiring_setPowered)
  have bb: "b = b'" using b True by simp
  have w: "wiring b = wiring g" using p wm bb by simp
  have sub: "poweredCells a \<subseteq> poweredCells b" using p Pm bb by auto
  have nb: "n \<in> poweredCells b" using p Pm bb by auto
  have rn: "reachable g v n" by (rule reachable_step [OF reachable_refl lk [OF True]])
  have new: "reachable g v w \<and> closedAt b w" if "w \<in> poweredCells b - poweredCells a" for w
  proof (cases "w = n")
    case True
    have "closedAt b' n" using p Pm by simp
    then show ?thesis using True rn bb by simp
  next
    case False
    then have "w \<in> poweredCells b' - poweredCells ?m" using that Pm bb by auto
    then have "reachable ?m n w \<and> closedAt b' w" using p by blast
    then have "reachable g n w" "closedAt b w"
      using wiring_reachable [OF wm] bb by simp_all
    then show ?thesis using rn reachable_trans [of g v n w] by simp
  qed
  have "\<forall>w\<in>poweredCells b - poweredCells a. reachable g v w \<and> closedAt b w"
    using new by (intro ballI)
  with w sub nb show ?thesis by (intro conjI impI)
qed


lemma wiring_rectangular:
  assumes "wiring b = wiring a" "rectangular a"
  shows "rectangular b"
proof -
  have l: "length b = length a" by (rule wiring_length [OF assms(1)])
  have "length (b ! r) = length (b ! 0)" if "r < length b" for r
  proof -
    have "length (b ! r) = length (a ! r)" using wiring_row_length [OF assms(1)] that l by simp
    moreover have "0 < length a" using that l by (cases a) auto
    then have "length (b ! 0) = length (a ! 0)"
      by (rule wiring_row_length [OF assms(1)])
    ultimately show ?thesis using assms(2) that l by (simp add: rectangular_def)
  qed
  then show ?thesis by (simp add: rectangular_def)
qed

lemma linked_cases:
  assumes "linked g (r, c) w" "cell g r c = Some p"
  shows "(0 < r \<and> w = (r - 1, c) \<and> top_conn (connections p)
            \<and> (\<exists>q. cell g (r - 1) c = Some q \<and> bottom_conn (connections q)))
       \<or> (w = (r, c + 1) \<and> right_conn (connections p)
            \<and> (\<exists>q. cell g r (c + 1) = Some q \<and> left_conn (connections q)))
       \<or> (w = (r + 1, c) \<and> bottom_conn (connections p)
            \<and> (\<exists>q. cell g (r + 1) c = Some q \<and> top_conn (connections q)))
       \<or> (0 < c \<and> w = (r, c - 1) \<and> left_conn (connections p)
            \<and> (\<exists>q. cell g r (c - 1) = Some q \<and> right_conn (connections q)))"
proof -
  obtain r' c' where w: "w = (r', c')" by (cases w)
  from assms obtain q where q: "cell g r' c' = Some q"
    by (auto simp: linked_def w split: option.splits)
  from assms(1) have
    "(r' + 1 = r \<and> c' = c \<and> top_conn (connections p) \<and> bottom_conn (connections q))
     \<or> (r' = r \<and> c' = c + 1 \<and> right_conn (connections p) \<and> left_conn (connections q))
     \<or> (r' = r + 1 \<and> c' = c \<and> bottom_conn (connections p) \<and> top_conn (connections q))
     \<or> (r' = r \<and> c' + 1 = c \<and> left_conn (connections p) \<and> right_conn (connections q))"
    by (simp add: linked_def w assms(2) q)
  then show ?thesis using q w by auto
qed

lemma linkedI:
  assumes "cell g r c = Some p" "cell g r' c' = Some q"
    and "(r' + 1 = r \<and> c' = c \<and> top_conn (connections p) \<and> bottom_conn (connections q))
     \<or> (r' = r \<and> c' = c + 1 \<and> right_conn (connections p) \<and> left_conn (connections q))
     \<or> (r' = r + 1 \<and> c' = c \<and> bottom_conn (connections p) \<and> top_conn (connections q))
     \<or> (r' = r \<and> c' + 1 = c \<and> left_conn (connections p) \<and> right_conn (connections q))"
  shows "linked g (r, c) (r', c')"
  using assms by (simp add: linked_def)

lemma unpoweredLink_cell:
  assumes "unpoweredLink a r c sel" "wiring a = wiring g"
  shows "\<exists>q. cell g r c = Some q \<and> sel (connections q)"
proof -
  from assms(1) obtain q' where "cell a r c = Some q'" "sel (connections q')"
    by (auto simp: unpoweredLink_def split: option.splits)
  then show ?thesis using wiring_cell_Some [OF assms(2) [symmetric], of r c q'] by auto
qed

lemma powered_if_no_link:
  assumes "cell g r c = Some q" "sel (connections q)" "wiring a = wiring g"
    and "\<not> unpoweredLink a r c sel"
  shows "(r, c) \<in> poweredCells a"
proof -
  from wiring_cell_Some [OF assms(3) assms(1)] obtain q' where
    "cell a r c = Some q'" "connections q' = connections q" by blast
  then show ?thesis using assms(2,4) by (auto simp: unpoweredLink_def poweredCells_def)
qed

lemma cell_bounds: "cell g r c = Some p \<Longrightarrow> r < length g \<and> c < length (g ! r)"
  by (auto simp: cell_def split: if_splits)


lemma dfsPost_same:
  assumes "v \<notin> poweredCells g"
  shows "dfsPost g v g"
  using assms by (simp add: dfsPost_def)

lemma propagatePower_post:
  "rectangular g \<Longrightarrow> dfsPost g (row, col) (propagatePower g row col)"
proof (induction g row col rule: propagatePower.induct)
  case (1 g row col)
  note rect = "1.prems"
  show ?case
  proof (cases "cell g row col")
    case None
    then have "propagatePower g row col = g"
      by (subst propagatePower.simps) simp
    moreover have "(row, col) \<notin> poweredCells g" using None by (simp add: poweredCells_def)
    ultimately show ?thesis using dfsPost_same by simp
  next
    case (Some piece)
    show ?thesis
    proof (cases "powered piece")
      case False
      then have "propagatePower g row col = g"
        using Some by (subst propagatePower.simps) simp
      moreover have "(row, col) \<notin> poweredCells g" using Some False by (simp add: poweredCells_def)
      ultimately show ?thesis using dfsPost_same by simp
    next
      case True
      have T: "\<not> \<not> powered piece" using True by simp
      define c1 where "c1 \<longleftrightarrow> top_conn (connections piece) \<and> row > 0
                         \<and> unpoweredLink g (row - 1) col bottom_conn"
      define g1 where "g1 = (if c1 then propagatePower (setPowered g (row - 1) col) (row - 1) col else g)"
      define c2 where "c2 \<longleftrightarrow> right_conn (connections piece) \<and> col + 1 < length (g1 ! 0)
                         \<and> unpoweredLink g1 row (col + 1) left_conn"
      define g2 where "g2 = (if c2 then propagatePower (setPowered g1 row (col + 1)) row (col + 1) else g1)"
      define c3 where "c3 \<longleftrightarrow> bottom_conn (connections piece) \<and> row + 1 < length g2
                         \<and> unpoweredLink g2 (row + 1) col top_conn"
      define g3 where "g3 = (if c3 then propagatePower (setPowered g2 (row + 1) col) (row + 1) col else g2)"
      define c4 where "c4 \<longleftrightarrow> left_conn (connections piece) \<and> col > 0
                         \<and> unpoweredLink g3 row (col - 1) right_conn"
      define g4 where "g4 = (if c4 then propagatePower (setPowered g3 row (col - 1)) row (col - 1) else g3)"
      have e1: "g1 = (if top_conn (connections piece) \<and> row > 0
                         \<and> unpoweredLink g (row - 1) col bottom_conn
                      then propagatePower (setPowered g (row - 1) col) (row - 1) col else g)"
        by (simp only: g1_def c1_def)
      have e2: "g2 = (if right_conn (connections piece) \<and> col + 1 < length (g1 ! 0)
                         \<and> unpoweredLink g1 row (col + 1) left_conn
                      then propagatePower (setPowered g1 row (col + 1)) row (col + 1) else g1)"
        by (simp only: g2_def c2_def)
      have e3: "g3 = (if bottom_conn (connections piece) \<and> row + 1 < length g2
                         \<and> unpoweredLink g2 (row + 1) col top_conn
                      then propagatePower (setPowered g2 (row + 1) col) (row + 1) col else g2)"
        by (simp only: g3_def c3_def)
      have e4: "g4 = (if left_conn (connections piece) \<and> col > 0
                         \<and> unpoweredLink g3 row (col - 1) right_conn
                      then propagatePower (setPowered g3 row (col - 1)) row (col - 1) else g3)"
        by (simp only: g4_def c4_def)
      have res: "propagatePower g row col = g4"
        unfolding e4 e3 e2 e1
        by (subst propagatePower.simps)
           (simp only: Some option.case True not_True_eq_False if_False Let_def)
      let ?v = "(row, col)"
      \<comment> \<open>up\<close>
      have s1: "wiring g1 = wiring g \<and> poweredCells g \<subseteq> poweredCells g1
            \<and> (\<forall>w\<in>poweredCells g1 - poweredCells g. reachable g ?v w \<and> closedAt g1 w)
            \<and> (c1 \<longrightarrow> (row - 1, col) \<in> poweredCells g1)"
      proof (rule direction_step [where n = "(row - 1, col)" and sel = bottom_conn
            and b' = "propagatePower (setPowered g (row - 1) col) (row - 1) col"])
        show "g1 = (if c1 then propagatePower (setPowered g (row - 1) col) (row - 1) col else g)"
          by (rule g1_def)
        show "wiring g = wiring g" by (rule refl)
        assume c: c1
        then have c': "top_conn (connections piece) \<and> row > 0
                         \<and> unpoweredLink g (row - 1) col bottom_conn" by (simp add: c1_def)
        have "rectangular (setPowered g (row - 1) col)"
          by (rule wiring_rectangular [OF wiring_setPowered rect])
        then show "dfsPost (setPowered g (fst (row - 1, col)) (snd (row - 1, col))) (row - 1, col)
               (propagatePower (setPowered g (row - 1) col) (row - 1) col)"
          using "1.IH"(1) [OF Some T c'] by simp
        show "unpoweredLink g (fst (row - 1, col)) (snd (row - 1, col)) bottom_conn"
          using c' by simp
        from unpoweredLink_cell [of g "row - 1" col bottom_conn g] c'
        obtain q where "cell g (row - 1) col = Some q" "bottom_conn (connections q)" by auto
        then show "linked g ?v (row - 1, col)"
          using c' by (intro linkedI [OF Some]) auto
      qed
      have r1: "rectangular g1" using s1 rect wiring_rectangular by blast
      \<comment> \<open>right\<close>
      have s2: "wiring g2 = wiring g \<and> poweredCells g1 \<subseteq> poweredCells g2
            \<and> (\<forall>w\<in>poweredCells g2 - poweredCells g1. reachable g ?v w \<and> closedAt g2 w)
            \<and> (c2 \<longrightarrow> (row, col + 1) \<in> poweredCells g2)"
      proof (rule direction_step [where n = "(row, col + 1)" and sel = left_conn
            and b' = "propagatePower (setPowered g1 row (col + 1)) row (col + 1)"])
        show "g2 = (if c2 then propagatePower (setPowered g1 row (col + 1)) row (col + 1) else g1)"
          by (rule g2_def)
        show "wiring g1 = wiring g" using s1 by simp
        assume c: c2
        then have c': "right_conn (connections piece) \<and> col + 1 < length (g1 ! 0)
                         \<and> unpoweredLink g1 row (col + 1) left_conn" by (simp add: c2_def)
        have "rectangular (setPowered g1 row (col + 1))"
          by (rule wiring_rectangular [OF wiring_setPowered r1])
        then show "dfsPost (setPowered g1 (fst (row, col + 1)) (snd (row, col + 1))) (row, col + 1)
               (propagatePower (setPowered g1 row (col + 1)) row (col + 1))"
          using "1.IH"(2) [OF Some T e1 c'] by simp
        show "unpoweredLink g1 (fst (row, col + 1)) (snd (row, col + 1)) left_conn"
          using c' by simp
        from unpoweredLink_cell [of g1 row "col + 1" left_conn g] c' s1
        obtain q where "cell g row (col + 1) = Some q" "left_conn (connections q)" by auto
        then show "linked g ?v (row, col + 1)"
          using c' by (intro linkedI [OF Some]) auto
      qed
      have r2: "rectangular g2" using s2 rect wiring_rectangular by blast
      \<comment> \<open>down\<close>
      have s3: "wiring g3 = wiring g \<and> poweredCells g2 \<subseteq> poweredCells g3
            \<and> (\<forall>w\<in>poweredCells g3 - poweredCells g2. reachable g ?v w \<and> closedAt g3 w)
            \<and> (c3 \<longrightarrow> (row + 1, col) \<in> poweredCells g3)"
      proof (rule direction_step [where n = "(row + 1, col)" and sel = top_conn
            and b' = "propagatePower (setPowered g2 (row + 1) col) (row + 1) col"])
        show "g3 = (if c3 then propagatePower (setPowered g2 (row + 1) col) (row + 1) col else g2)"
          by (rule g3_def)
        show "wiring g2 = wiring g" using s2 by simp
        assume c: c3
        then have c': "bottom_conn (connections piece) \<and> row + 1 < length g2
                         \<and> unpoweredLink g2 (row + 1) col top_conn" by (simp add: c3_def)
        have "rectangular (setPowered g2 (row + 1) col)"
          by (rule wiring_rectangular [OF wiring_setPowered r2])
        then show "dfsPost (setPowered g2 (fst (row + 1, col)) (snd (row + 1, col))) (row + 1, col)
               (propagatePower (setPowered g2 (row + 1) col) (row + 1) col)"
          using "1.IH"(3) [OF Some T e1 e2 c'] by simp
        show "unpoweredLink g2 (fst (row + 1, col)) (snd (row + 1, col)) top_conn"
          using c' by simp
        from unpoweredLink_cell [of g2 "row + 1" col top_conn g] c' s2
        obtain q where "cell g (row + 1) col = Some q" "top_conn (connections q)" by auto
        then show "linked g ?v (row + 1, col)"
          using c' by (intro linkedI [OF Some]) auto
      qed
      have r3: "rectangular g3" using s3 rect wiring_rectangular by blast
      \<comment> \<open>left\<close>
      have s4: "wiring g4 = wiring g \<and> poweredCells g3 \<subseteq> poweredCells g4
            \<and> (\<forall>w\<in>poweredCells g4 - poweredCells g3. reachable g ?v w \<and> closedAt g4 w)
            \<and> (c4 \<longrightarrow> (row, col - 1) \<in> poweredCells g4)"
      proof (rule direction_step [where n = "(row, col - 1)" and sel = right_conn
            and b' = "propagatePower (setPowered g3 row (col - 1)) row (col - 1)"])
        show "g4 = (if c4 then propagatePower (setPowered g3 row (col - 1)) row (col - 1) else g3)"
          by (rule g4_def)
        show "wiring g3 = wiring g" using s3 by simp
        assume c: c4
        then have c': "left_conn (connections piece) \<and> col > 0
                         \<and> unpoweredLink g3 row (col - 1) right_conn" by (simp add: c4_def)
        have "rectangular (setPowered g3 row (col - 1))"
          by (rule wiring_rectangular [OF wiring_setPowered r3])
        then show "dfsPost (setPowered g3 (fst (row, col - 1)) (snd (row, col - 1))) (row, col - 1)
               (propagatePower (setPowered g3 row (col - 1)) row (col - 1))"
          using "1.IH"(4) [OF Some T e1 e2 e3 c'] by simp
        show "unpoweredLink g3 (fst (row, col - 1)) (snd (row, col - 1)) right_conn"
          using c' by simp
        from unpoweredLink_cell [of g3 row "col - 1" right_conn g] c' s3
        obtain q where "cell g row (col - 1) = Some q" "right_conn (connections q)" by auto
        then show "linked g ?v (row, col - 1)"
          using c' by (intro linkedI [OF Some]) auto
      qed
      \<comment> \<open>the four together\<close>
      have w1: "wiring g1 = wiring g" and w2: "wiring g2 = wiring g"
        and w3: "wiring g3 = wiring g" and w4: "wiring g4 = wiring g"
        using s1 s2 s3 s4 by simp_all
      have p01: "poweredCells g \<subseteq> poweredCells g1" and p12: "poweredCells g1 \<subseteq> poweredCells g2"
        and p23: "poweredCells g2 \<subseteq> poweredCells g3" and p34: "poweredCells g3 \<subseteq> poweredCells g4"
        using s1 s2 s3 s4 by simp_all
      have new: "reachable g ?v w \<and> closedAt g4 w" if w: "w \<in> poweredCells g4 - poweredCells g" for w
      proof -
        consider "w \<in> poweredCells g1 - poweredCells g" | "w \<in> poweredCells g2 - poweredCells g1"
          | "w \<in> poweredCells g3 - poweredCells g2" | "w \<in> poweredCells g4 - poweredCells g3"
          using w by blast
        then show ?thesis
        proof cases
          case 1
          then have "reachable g ?v w" "closedAt g1 w" using s1 by auto
          moreover have "poweredCells g1 \<subseteq> poweredCells g4" using p12 p23 p34 by blast
          ultimately show ?thesis using closedAt_mono [of g1 w g4] w1 w4 by simp
        next
          case 2
          then have "reachable g ?v w" "closedAt g2 w" using s2 by auto
          moreover have "poweredCells g2 \<subseteq> poweredCells g4" using p23 p34 by blast
          ultimately show ?thesis using closedAt_mono [of g2 w g4] w2 w4 by simp
        next
          case 3
          then have "reachable g ?v w" "closedAt g3 w" using s3 by auto
          then show ?thesis using closedAt_mono [of g3 w g4] w3 w4 p34 by simp
        next
          case 4
          then show ?thesis using s4 by auto
        qed
      qed
      have root: "closedAt g4 ?v"
        unfolding closedAt_def
      proof (intro allI impI)
        fix w assume "linked g4 ?v w"
        then have l: "linked g ?v w" using wiring_linked [OF w4] by simp
        from linked_cases [OF l Some] consider
          (up) q where "0 < row" "w = (row - 1, col)" "top_conn (connections piece)"
            "cell g (row - 1) col = Some q" "bottom_conn (connections q)"
        | (right) q where "w = (row, col + 1)" "right_conn (connections piece)"
            "cell g row (col + 1) = Some q" "left_conn (connections q)"
        | (down) q where "w = (row + 1, col)" "bottom_conn (connections piece)"
            "cell g (row + 1) col = Some q" "top_conn (connections q)"
        | (left) q where "0 < col" "w = (row, col - 1)" "left_conn (connections piece)"
            "cell g row (col - 1) = Some q" "right_conn (connections q)"
          by blast
        then show "w \<in> poweredCells g4"
        proof cases
          case up
          have "w \<in> poweredCells g1"
          proof (cases c1)
            case True
            then show ?thesis using s1 up by simp
          next
            case False
            then have "\<not> unpoweredLink g (row - 1) col bottom_conn" using up by (simp add: c1_def)
            then have "(row - 1, col) \<in> poweredCells g"
              using powered_if_no_link [where sel = bottom_conn and a = g, OF up(4) up(5) refl] by simp
            then show ?thesis using p01 up by auto
          qed
          then show ?thesis using p12 p23 p34 by blast
        next
          case right
          obtain q' where q': "cell g1 row (col + 1) = Some q'"
            using wiring_cell_Some [OF w1 right(3)] by blast
          have bound: "col + 1 < length (g1 ! 0)"
            using cell_bounds [OF q'] r1 by (auto simp: rectangular_def)
          have "w \<in> poweredCells g2"
          proof (cases c2)
            case True
            then show ?thesis using s2 right by simp
          next
            case False
            then have "\<not> unpoweredLink g1 row (col + 1) left_conn"
              using right bound by (simp add: c2_def)
            then have "(row, col + 1) \<in> poweredCells g1"
              using powered_if_no_link [where sel = left_conn, OF right(3) right(4) w1] by simp
            then show ?thesis using p12 right by auto
          qed
          then show ?thesis using p23 p34 by blast
        next
          case down
          obtain q' where q': "cell g2 (row + 1) col = Some q'"
            using wiring_cell_Some [OF w2 down(3)] by blast
          have bound: "row + 1 < length g2" using cell_bounds [OF q'] by simp
          have "w \<in> poweredCells g3"
          proof (cases c3)
            case True
            then show ?thesis using s3 down by simp
          next
            case False
            then have "\<not> unpoweredLink g2 (row + 1) col top_conn"
              using down bound by (simp add: c3_def)
            then have "(row + 1, col) \<in> poweredCells g2"
              using powered_if_no_link [where sel = top_conn, OF down(3) down(4) w2] by simp
            then show ?thesis using p23 down by auto
          qed
          then show ?thesis using p34 by blast
        next
          case left
          show ?thesis
          proof (cases c4)
            case True
            then show ?thesis using s4 left by simp
          next
            case False
            then have "\<not> unpoweredLink g3 row (col - 1) right_conn"
              using left by (simp add: c4_def)
            then have "(row, col - 1) \<in> poweredCells g3"
              using powered_if_no_link [where sel = right_conn, OF left(4) left(5) w3] by simp
            then show ?thesis using p34 left by auto
          qed
        qed
      qed
      have "poweredCells g \<subseteq> poweredCells g4" using p01 p12 p23 p34 by blast
      then have "dfsPost g ?v g4"
        unfolding dfsPost_def using w4 new root by blast
      then show ?thesis by (simp only: res)
    qed
  qed
qed

lemma unpower_resetCell:
  "map_option (\<lambda>p. p\<lparr>powered := False\<rparr>) (resetCell v) = map_option (\<lambda>p. p\<lparr>powered := False\<rparr>) v"
  by (cases v) (simp_all add: resetCell_def)

lemma wiring_resetPower: "wiring (resetPower g) = wiring g"
proof -
  have "map (map_option (\<lambda>p. p\<lparr>powered := False\<rparr>)) (map resetCell (take n r) @ drop n r)
      = map (map_option (\<lambda>p. p\<lparr>powered := False\<rparr>)) r" for n r
  proof -
    have "map (map_option (\<lambda>p. p\<lparr>powered := False\<rparr>)) (map resetCell (take n r) @ drop n r)
        = map (map_option (\<lambda>p. p\<lparr>powered := False\<rparr>)) (take n r @ drop n r)"
      by (simp add: unpower_resetCell comp_def del: append_take_drop_id)
    then show ?thesis by simp
  qed
  then show ?thesis by (simp add: wiring_def resetPower_def comp_def)
qed

lemma resetPower_rectangular:
  assumes "rectangular g"
  shows "resetPower g = map (map resetCell) g"
  unfolding resetPower_def
proof (rule map_cong [OF refl])
  fix r assume "r \<in> set g"
  then have "length r = length (g ! 0)"
    using assms by (auto simp: rectangular_def in_set_conv_nth)
  then show "map resetCell (take (length (g ! 0)) r) @ drop (length (g ! 0)) r = map resetCell r"
    by simp
qed

lemma cell_resetPower:
  assumes "rectangular g"
  shows "cell (resetPower g) r c = resetCell (cell g r c)"
  unfolding resetPower_rectangular [OF assms]
  by (auto simp: cell_def resetCell_def)

lemma poweredCells_resetPower:
  assumes "rectangular g"
  shows "poweredCells (resetPower g)
       = {(r, c). \<exists>p. cell g r c = Some p \<and> ptype p = Source \<and> powered p}"
  unfolding poweredCells_def cell_resetPower [OF assms]
  by (auto simp: resetCell_def split: option.splits if_splits)

text \<open>A set of cells that holds the source and is closed under links holds every reachable cell.\<close>

lemma reachable_in_closed:
  assumes "reachable g v w" "v \<in> S" "\<forall>a\<in>S. \<forall>b. linked g a b \<longrightarrow> b \<in> S"
  shows "w \<in> S"
proof -
  from assms(1) have "(v, w) \<in> {(x, y). linked g x y}\<^sup>*" by (simp add: reachable_def)
  then show ?thesis
    using assms(2,3) by (induction rule: rtrancl_induct) auto
qed

lemma grid_eqI:
  assumes "wiring a = wiring b" "poweredCells a = poweredCells b"
  shows "a = b"
proof (rule nth_equalityI)
  show len: "length a = length b" by (rule wiring_length [OF assms(1)])
  fix r assume r: "r < length a"
  then have rb: "r < length b" using len by simp
  show "a ! r = b ! r"
  proof (rule nth_equalityI)
    show rl: "length (a ! r) = length (b ! r)" by (rule wiring_row_length [OF assms(1) rb])
    fix c assume c: "c < length (a ! r)"
    have ca: "cell a r c = a ! r ! c" using r c by (simp add: cell_def)
    have cb: "cell b r c = b ! r ! c" using rb c rl by (simp add: cell_def)
    have u: "map_option (\<lambda>p. p\<lparr>powered := False\<rparr>) (cell a r c)
           = map_option (\<lambda>p. p\<lparr>powered := False\<rparr>) (cell b r c)"
      by (rule wiring_cell [OF assms(1)])
    have "cell a r c = cell b r c"
    proof (cases "cell a r c")
      case None
      then show ?thesis using u by (cases "cell b r c") auto
    next
      case (Some p)
      then obtain q where q: "cell b r c = Some q" using u by (cases "cell b r c") auto
      have e: "p\<lparr>powered := False\<rparr> = q\<lparr>powered := False\<rparr>" using u Some q by simp
      have "powered p \<longleftrightarrow> (r, c) \<in> poweredCells a" using Some by (simp add: poweredCells_def)
      moreover have "powered q \<longleftrightarrow> (r, c) \<in> poweredCells b" using q by (simp add: poweredCells_def)
      ultimately have "powered p = powered q" using assms(2) by simp
      with e have "p = q" by (cases p, cases q) simp
      then show ?thesis using Some q by simp
    qed
    then show "a ! r ! c = b ! r ! c" using ca cb by simp
  qed
qed

text \<open>Propagation from a reset grid in which the source alone has power.\<close>

lemma flow_from_source:
  assumes rect: "rectangular g"
    and src: "cell g sr sc = Some p" "ptype p = Source" "powered p"
    and uniq: "\<forall>r c q. cell g r c = Some q \<longrightarrow> ptype q = Source \<longrightarrow> (r, c) = (sr, sc)"
  shows "wiring (propagatePower (resetPower g) sr sc) = wiring g
       \<and> poweredCells (propagatePower (resetPower g) sr sc) = {v. reachable g (sr, sc) v}"
proof -
  let ?g0 = "resetPower g"
  let ?g' = "propagatePower ?g0 sr sc"
  have w0: "wiring ?g0 = wiring g" by (rule wiring_resetPower)
  have r0: "rectangular ?g0" by (rule wiring_rectangular [OF w0 rect])
  have P0: "poweredCells ?g0 = {(sr, sc)}"
  proof (rule equalityI)
    show "poweredCells ?g0 \<subseteq> {(sr, sc)}"
      unfolding poweredCells_resetPower [OF rect] using uniq by blast
    show "{(sr, sc)} \<subseteq> poweredCells ?g0"
      unfolding poweredCells_resetPower [OF rect] using src by simp
  qed
  note d = propagatePower_post [OF r0, of sr sc, unfolded dfsPost_def]
  have post: "wiring ?g' = wiring ?g0" "poweredCells ?g0 \<subseteq> poweredCells ?g'"
    "\<forall>w\<in>poweredCells ?g' - poweredCells ?g0. reachable ?g0 (sr, sc) w \<and> closedAt ?g' w"
    using d by blast+
  have "(sr, sc) \<in> poweredCells ?g0" using P0 by simp
  then have root: "closedAt ?g' (sr, sc)" using d by blast
  have w': "wiring ?g' = wiring g" using post(1) w0 by simp
  have sub: "poweredCells ?g' \<subseteq> {v. reachable g (sr, sc) v}"
  proof
    fix w assume w: "w \<in> poweredCells ?g'"
    show "w \<in> {v. reachable g (sr, sc) v}"
    proof (cases "w = (sr, sc)")
      case True
      then show ?thesis by (simp add: reachable_refl)
    next
      case False
      then have "w \<in> poweredCells ?g' - poweredCells ?g0" using w P0 by simp
      then have "reachable ?g0 (sr, sc) w" using post(3) by blast
      then show ?thesis using wiring_reachable [OF w0] by simp
    qed
  qed
  have closed: "\<forall>a\<in>poweredCells ?g'. \<forall>b. linked g a b \<longrightarrow> b \<in> poweredCells ?g'"
  proof (intro ballI allI impI)
    fix a b assume a: "a \<in> poweredCells ?g'" and l: "linked g a b"
    have "closedAt ?g' a"
    proof (cases "a = (sr, sc)")
      case True
      then show ?thesis using root by simp
    next
      case False
      then have "a \<in> poweredCells ?g' - poweredCells ?g0" using a P0 by simp
      then show ?thesis using post(3) by blast
    qed
    then have "\<forall>w. linked ?g' a w \<longrightarrow> w \<in> poweredCells ?g'"
      by (simp only: closedAt_def)
    moreover have "linked ?g' a b" using l by (simp only: wiring_linked [OF w'])
    ultimately show "b \<in> poweredCells ?g'" by blast
  qed
  have mem: "(sr, sc) \<in> poweredCells ?g'" using post(2) P0 by simp
  have sup: "{v. reachable g (sr, sc) v} \<subseteq> poweredCells ?g'"
  proof
    fix w assume "w \<in> {v. reachable g (sr, sc) v}"
    then have "reachable g (sr, sc) w" by simp
    then show "w \<in> poweredCells ?g'" using mem closed by (rule reachable_in_closed)
  qed
  from sub sup have "poweredCells ?g' = {v. reachable g (sr, sc) v}" by (rule equalityI)
  with w' show ?thesis by (rule conjI)
qed

text \<open>
  C2.  Take a rectangular grid whose source position holds the only piece of type source, and
  that piece has power (as \<^verbatim>\<open>createPiece\<close> makes it).  Then \<^verbatim>\<open>updatePowerFlow\<close> returns, the source
  has power afterwards, and the cells with power are exactly the cells reachable from the
  source through links, a link joining two neighbouring cells whose pieces each have a
  connection towards the other.  Running \<^verbatim>\<open>updatePowerFlow\<close> again on the result gives the same
  state.
\<close>

theorem updatePowerFlow_reachable:
  assumes "rectangular (grid st)"
    and "cell (grid st) (fst (sourcePosition st)) (snd (sourcePosition st)) = Some p"
    and "ptype p = Source" and "powered p"
    and "\<forall>r c q. cell (grid st) r c = Some q \<longrightarrow> ptype q = Source \<longrightarrow> (r, c) = sourcePosition st"
  shows "\<exists>st'. updatePowerFlow st = Inr st'
           \<and> sourcePosition st \<in> poweredCells (grid st')
           \<and> poweredCells (grid st') = {v. reachable (grid st) (sourcePosition st) v}
           \<and> updatePowerFlow st' = Inr st'"
proof -
  obtain sr sc where s: "sourcePosition st = (sr, sc)" by (cases "sourcePosition st")
  let ?g = "grid st"
  let ?g' = "propagatePower (resetPower ?g) sr sc"
  let ?st' = "st\<lparr>grid := ?g'\<rparr>"
  have src: "cell ?g sr sc = Some p" using assms(2) s by simp
  have uniq: "\<forall>r c q. cell ?g r c = Some q \<longrightarrow> ptype q = Source \<longrightarrow> (r, c) = (sr, sc)"
    using assms(5) s by simp
  have inb: "sr < length ?g" using cell_bounds [OF src] by simp
  have lr: "length (resetPower ?g) = length ?g" by (simp add: resetPower_def)
  have run: "updatePowerFlow st = Inr ?st'"
    using inb lr s by (simp add: updatePowerFlow_def Let_def)
  note f = flow_from_source [OF assms(1) src assms(3,4) uniq]
  have P: "poweredCells ?g' = {v. reachable ?g (sr, sc) v}" using f by simp
  have w: "wiring ?g' = wiring ?g" using f by simp
  have mem: "(sr, sc) \<in> poweredCells ?g'" using P by (simp add: reachable_refl)
  \<comment> \<open>the second run\<close>
  have rect': "rectangular ?g'" by (rule wiring_rectangular [OF w assms(1)])
  from wiring_cell_Some [OF w src] obtain p' where
    p': "cell ?g' sr sc = Some p'" "ptype p' = ptype p" by blast
  have pow': "powered p'" using mem p' by (simp add: poweredCells_def)
  have uniq': "\<forall>r c q. cell ?g' r c = Some q \<longrightarrow> ptype q = Source \<longrightarrow> (r, c) = (sr, sc)"
  proof (intro allI impI)
    fix r c q assume q: "cell ?g' r c = Some q" "ptype q = Source"
    from wiring_cell_Some [OF w [symmetric] q(1)] obtain q0 where
      "cell ?g r c = Some q0" "ptype q0 = ptype q" by blast
    then show "(r, c) = (sr, sc)" using uniq q(2) by simp
  qed
  have s3: "ptype p' = Source" using p' assms(3) by simp
  note f' = flow_from_source [OF rect' p'(1) s3 pow' uniq']
  have "poweredCells (propagatePower (resetPower ?g') sr sc) = {v. reachable ?g' (sr, sc) v}"
    by (rule conjunct2 [OF f'])
  also have "\<dots> = {v. reachable ?g (sr, sc) v}"
    by (simp only: wiring_reachable [OF w])
  also have "\<dots> = poweredCells ?g'" by (rule P [symmetric])
  finally have pe: "poweredCells (propagatePower (resetPower ?g') sr sc) = poweredCells ?g'" .
  have we: "wiring (propagatePower (resetPower ?g') sr sc) = wiring ?g'"
    by (rule conjunct1 [OF f'])
  have same: "propagatePower (resetPower ?g') sr sc = ?g'"
    by (rule grid_eqI [OF we pe])
  have inb': "sr < length ?g'" using cell_bounds [OF p'(1)] by simp
  have lr': "length (resetPower ?g') = length ?g'" by (simp add: resetPower_def)
  have run': "updatePowerFlow ?st' = Inr ?st'"
    using inb' lr' s same by (simp add: updatePowerFlow_def Let_def)
  have m: "sourcePosition st \<in> poweredCells (grid ?st')" using mem s by simp
  have e: "poweredCells (grid ?st') = {v. reachable (grid st) (sourcePosition st) v}"
    using P s by simp
  show ?thesis
    by (rule exI [of _ ?st']) (intro conjI run m e run')
qed

lemma example_row_cells:
  "cell [[Some (createPiece Source 0), Some (createPiece Straight 90), Some (createPiece Destination 0)]] r c
     = (if r = 0 \<and> c = 0 then Some (createPiece Source 0)
        else if r = 0 \<and> c = 1 then Some (createPiece Straight 90)
        else if r = 0 \<and> c = 2 then Some (createPiece Destination 0) else None)"
  by (auto simp: cell_def nth_Cons' less_Suc_eq numeral_3_eq_3)

theorem updatePowerFlow_reachable_witness:
  "\<exists>st'. updatePowerFlow
        \<lparr>gameState = Playing, timeLeft = 30000, timer = start 0 (newTimer 30000 0), pending = [],
         grid = [[Some (createPiece Source 0), Some (createPiece Straight 90),
                  Some (createPiece Destination 0)]],
         sourcePosition = (0, 0), destinationPosition = (0, 2)\<rparr> = Inr st'
     \<and> (0, 0) \<in> poweredCells (grid st')
     \<and> poweredCells (grid st')
         = {v. reachable [[Some (createPiece Source 0), Some (createPiece Straight 90),
                           Some (createPiece Destination 0)]] (0, 0) v}
     \<and> updatePowerFlow st' = Inr st'"
proof -
  let ?g = "[[Some (createPiece Source 0), Some (createPiece Straight 90),
              Some (createPiece Destination 0)]]"
  let ?st = "\<lparr>gameState = Playing, timeLeft = 30000, timer = start 0 (newTimer 30000 0), pending = [],
         grid = ?g, sourcePosition = (0, 0), destinationPosition = (0, 2)\<rparr>"
  have r: "rectangular (grid ?st)" by (simp add: rectangular_def)
  have s: "cell (grid ?st) (fst (sourcePosition ?st)) (snd (sourcePosition ?st))
             = Some (createPiece Source 0)"
    by (simp add: example_row_cells)
  have t: "ptype (createPiece Source 0) = Source" "powered (createPiece Source 0)"
    by (simp_all add: createPiece_def)
  have u: "\<forall>r c q. cell (grid ?st) r c = Some q \<longrightarrow> ptype q = Source \<longrightarrow> (r, c) = sourcePosition ?st"
  proof (intro allI impI)
    fix r c q
    assume a: "cell (grid ?st) r c = Some q" "ptype q = Source"
    from a(1) have "cell ?g r c = Some q" by simp
    then have "(r = 0 \<and> c = 0) \<or> q = createPiece Straight 90 \<or> q = createPiece Destination 0"
      by (simp add: example_row_cells split: if_splits)
    then show "(r, c) = sourcePosition ?st"
      using a(2) by (auto simp: createPiece_def)
  qed
  show ?thesis
    using updatePowerFlow_reachable [OF r s t u] by simp
qed

section \<open>Code Cracker: a session with the countdown running\<close>

lemma correct_all_iff:
  assumes "length guess = codeLength cfg" "length code = codeLength cfg"
  shows "correct (checkGuess cfg guess code) = codeLength cfg \<longleftrightarrow> guess = code"
proof -
  let ?zs = "zip guess code"
  have len: "length guess = length code" using assms by simp
  have c: "correct (checkGuess cfg guess code) = length (filter (\<lambda>(g, c). g = c) ?zs)"
    by (simp add: checkGuess_unfold [OF assms])
  have l: "length ?zs = codeLength cfg" using assms by simp
  show ?thesis
  proof
    assume "correct (checkGuess cfg guess code) = codeLength cfg"
    then have full: "length (filter (\<lambda>(g, c). g = c) ?zs) = length ?zs" using c l by simp
    have "\<forall>z\<in>set ?zs. (case z of (g, c) \<Rightarrow> g = c)"
    proof (rule ccontr)
      assume "\<not> (\<forall>z\<in>set ?zs. (case z of (g, c) \<Rightarrow> g = c))"
      then obtain z where "z \<in> set ?zs" "\<not> (case z of (g, c) \<Rightarrow> g = c)" by blast
      then have "length (filter (\<lambda>(g, c). g = c) ?zs) < length ?zs"
        by (rule length_filter_less)
      with full show False by simp
    qed
    then show "guess = code" using len by (auto simp: list_eq_iff_zip_eq)
  next
    assume "guess = code"
    then have "filter (\<lambda>(g, c). g = c) ?zs = ?zs"
      by (auto simp: filter_id_conv zip_same)
    then show "correct (checkGuess cfg guess code) = codeLength cfg" using c l by simp
  qed
qed

lemma cc_run_snoc: "cc_run cfg (evs @ [e]) st = cc_step cfg e (cc_run cfg evs st)"
  by (simp add: cc_run_def)

lemma cc_run_append: "cc_run cfg (evs @ evs') st = cc_run cfg evs' (cc_run cfg evs st)"
  by (simp add: cc_run_def)

lemma submissions_snoc:
  "submissions cfg (evs @ [e]) st =
     submissions cfg evs st
     + (if e = Submit \<and> gameState (cc_run cfg evs st) = Playing
           \<and> Null \<notin> set (currentGuess (cc_run cfg evs st)) then 1 else 0)"
  by (induction evs arbitrary: st) (simp_all add: cc_run_def)

lemma lastTick_snoc:
  "lastTick h (evs @ [e]) =
     (case e of Tick h' t \<Rightarrow> if h' = h then Some t else lastTick h evs | _ \<Rightarrow> lastTick h evs)"
  by (cases e) (simp_all add: lastTick_def)

text \<open>What the interval coming due does to a component whose timer runs: the remaining time
  is stored, and at zero the game is lost.  The interval \<^verbatim>\<open>onMount\<close> registers has handle 1.\<close>

lemma cc_interval_running:
  assumes "timer st = start s (newTimer d c)"
  shows "cc_interval h now st =
           (if h \<noteq> 1 then st
            else if d - (now - s) \<le> 0
            then cc_handleGameOver False (st\<lparr>timer := stop (timer st), timeLeft := 0\<rparr>)
            else st\<lparr>timeLeft := d - (now - s)\<rparr>)"
  using assms
  by (simp add: cc_interval_def fire_def tick_def start_def newTimer_def Let_def max_def)

text \<open>Once the game is over and the interval cleared, no event changes the component.\<close>

lemma cc_step_over:
  assumes "gameState st \<noteq> Playing" and "registered (timer st) = []"
  shows "cc_step cfg e st = st"
  using assms
  by (cases e)
     (simp_all add: cc_interval_def fire_def selectPosition_def selectColor_def submitGuess_def)

lemma cc_run_over:
  assumes "gameState st \<noteq> Playing" and "registered (timer st) = []"
  shows "cc_run cfg evs st = st"
  using assms
proof (induction evs)
  case Nil
  show ?case by (simp add: cc_run_def)
next
  case (Cons e evs)
  have "cc_run cfg (e # evs) st = cc_run cfg evs (cc_step cfg e st)" by (simp add: cc_run_def)
  also have "\<dots> = cc_run cfg evs st" using Cons.prems by (simp add: cc_step_over)
  finally show ?case using Cons by simp
qed

text \<open>What holds of a mounted component after any events, as long as the game is in play.\<close>

lemma cc_run_playing:
  assumes "gameState (cc_run cfg evs (cc_onMount cfg idxs now)) = Playing"
  shows "timer (cc_run cfg evs (cc_onMount cfg idxs now)) = start now (newTimer (duration cfg) now)
       \<and> pending (cc_run cfg evs (cc_onMount cfg idxs now)) = []
       \<and> secretCode (cc_run cfg evs (cc_onMount cfg idxs now)) = generateSecretCode idxs
       \<and> currentAttempt (cc_run cfg evs (cc_onMount cfg idxs now))
           = submissions cfg evs (cc_onMount cfg idxs now)
       \<and> timeLeft (cc_run cfg evs (cc_onMount cfg idxs now))
           = (case lastTick 1 evs of None \<Rightarrow> duration cfg | Some t \<Rightarrow> duration cfg - (t - now))"
  using assms
proof (induction evs rule: rev_induct)
  case Nil
  show ?case
    by (simp add: cc_run_def cc_onMount_def cc_startGame_def resetGame_def cc_initial_def
        lastTick_def)
next
  case (snoc e evs)
  let ?st = "cc_run cfg evs (cc_onMount cfg idxs now)"
  have step: "cc_run cfg (evs @ [e]) (cc_onMount cfg idxs now) = cc_step cfg e ?st"
    by (rule cc_run_snoc)
  have play: "gameState ?st = Playing"
  proof (rule ccontr)
    assume n: "gameState ?st \<noteq> Playing"
    have "gameState (cc_step cfg e ?st) = gameState ?st"
    proof (cases e)
      case (Tick h t)
      obtain t' es where f: "fire h t (timer ?st) = (t', es)" by (cases "fire h t (timer ?st)")
      have "gameState x \<noteq> Playing \<Longrightarrow> gameState (foldl cc_callback x es) \<noteq> Playing" for x
      proof (induction es arbitrary: x)
        case Nil
        then show ?case by simp
      next
        case (Cons a es)
        show ?case using Cons.prems by (cases a) (auto intro!: Cons.IH simp: cc_handleGameOver_def)
      qed
      then have "gameState (cc_step cfg e ?st) \<noteq> Playing"
        using Tick f n by (simp add: cc_interval_def)
      then show ?thesis using snoc.prems step by simp
    next
      case (SelectPosition p)
      then show ?thesis using n by (simp add: selectPosition_def)
    next
      case (SelectColor c)
      then show ?thesis using n by (simp add: selectColor_def)
    next
      case Submit
      then show ?thesis using n by (simp add: submitGuess_def)
    qed
    then show False using snoc.prems step n by simp
  qed
  note ih = snoc.IH [OF play]
  have tm: "timer ?st = start now (newTimer (duration cfg) now)" using ih by simp
  have after: "gameState (cc_step cfg e ?st) = Playing" using snoc.prems step by simp
  show ?case
  proof (cases e)
    case (Tick h t)
    have a: "gameState (cc_interval h t ?st) = Playing" using after Tick by simp
    show ?thesis
      using a ih play
      unfolding Tick cc_run_snoc cc_step.simps submissions_snoc lastTick_snoc
        cc_interval_running [OF tm]
      by (auto simp: cc_handleGameOver_def split: if_splits)
  next
    case (SelectPosition p)
    show ?thesis
      using ih play
      unfolding SelectPosition cc_run_snoc cc_step.simps submissions_snoc lastTick_snoc
      by (simp add: selectPosition_def)
  next
    case (SelectColor c)
    show ?thesis
      using ih play
      unfolding SelectColor cc_run_snoc cc_step.simps submissions_snoc lastTick_snoc
      by (simp add: selectColor_def Let_def)
  next
    case Submit
    have a: "gameState (submitGuess cfg ?st) = Playing" using after Submit by simp
    show ?thesis
      using a ih play
      unfolding Submit cc_run_snoc cc_step.simps submissions_snoc lastTick_snoc
      by (auto simp: submitGuess_def Let_def cc_handleGameOver_def split: if_splits)
  qed
qed

text \<open>Submitting the secret code while the game is in play.\<close>

lemma submit_secret:
  assumes "gameState st = Playing" and "currentGuess st = secretCode st"
    and "secretCode st = generateSecretCode idxs" and "length idxs = codeLength cfg"
    and "timer st = start s (newTimer d c)"
  shows "gameState (submitGuess cfg st) = Success
       \<and> registered (timer (submitGuess cfg st)) = []
       \<and> pending (submitGuess cfg st) = pending st @ [(2000, True)]
       \<and> timeLeft (submitGuess cfg st) = timeLeft st
       \<and> currentAttempt (submitGuess cfg st) = currentAttempt st
       \<and> secretCode (submitGuess cfg st) = secretCode st"
proof -
  have full: "Null \<notin> set (currentGuess st)"
    using assms(2,3) by (auto simp: generateSecretCode_def)
  have len: "length (secretCode st) = codeLength cfg"
    using assms(3,4) by (simp add: generateSecretCode_def)
  have "correct (checkGuess cfg (secretCode st) (secretCode st)) = codeLength cfg"
    using correct_all_iff [OF len len] by simp
  then show ?thesis
    using assms(1,2,5) full
    by (simp add: submitGuess_def Let_def cc_handleGameOver_def stop_started)
qed


text \<open>
  C5 (amended).  Code Cracker with \<open>codeLength = 4\<close> and \<open>attempts = 6\<close>, mounted at time
  \<open>now\<close>; then any events: the countdown's interval coming due, clicks on slots, colours and
  the submit button.  If two complete guesses have been submitted, the game is still in play
  (neither guess was the code, the time has not run out) and the current guess equals the
  secret code, then the click on submit that follows ends the game in \<open>Success\<close> and schedules
  one completion callback, with \<open>success = true\<close>, after 2000 ms.  Whatever happens before that
  callback runs, the event it dispatches carries \<^verbatim>\<open>timeRemaining\<close>, \<^verbatim>\<open>attempts\<close> = 3 and
  \<^verbatim>\<open>secretCode\<close>: the count of attempts is in the field named \<^verbatim>\<open>attempts\<close>, and there is no field
  \<^verbatim>\<open>attemptsUsed\<close>.  \<^verbatim>\<open>timeRemaining\<close> is what the countdown last reported before the winning
  click: the duration less the time from the start to the last tick (the whole duration if
  none came).
\<close>

theorem code_cracker_third_guess:
  assumes "codeLength cfg = 4" and "attempts cfg = 6" and "length idxs = 4"
    and "submissions cfg evs (cc_onMount cfg idxs now) = 2"
    and "gameState (cc_run cfg evs (cc_onMount cfg idxs now)) = Playing"
    and "currentGuess (cc_run cfg evs (cc_onMount cfg idxs now))
           = secretCode (cc_run cfg evs (cc_onMount cfg idxs now))"
  shows "gameState (cc_run cfg (evs @ Submit # later) (cc_onMount cfg idxs now)) = Success
      \<and> pending (cc_run cfg (evs @ Submit # later) (cc_onMount cfg idxs now)) = [(2000, True)]
      \<and> cc_complete True (cc_run cfg (evs @ Submit # later) (cc_onMount cfg idxs now))
         = \<lparr>success = True,
            data = [(''timeRemaining'',
                       JNum (case lastTick 1 evs of None \<Rightarrow> duration cfg
                             | Some t \<Rightarrow> duration cfg - (t - now))),
                    (''attempts'', JNum 3),
                    (''secretCode'', JSlots (generateSecretCode idxs))]\<rparr>
      \<and> map_of (data (cc_complete True (cc_run cfg (evs @ Submit # later) (cc_onMount cfg idxs now))))
           ''attemptsUsed'' = None"
proof -
  let ?st = "cc_run cfg evs (cc_onMount cfg idxs now)"
  let ?fin = "submitGuess cfg ?st"
  note p = cc_run_playing [OF assms(5)]
  have tm: "timer ?st = start now (newTimer (duration cfg) now)" using p by simp
  have sc: "secretCode ?st = generateSecretCode idxs" using p by simp
  have li: "length idxs = codeLength cfg" using assms(1,3) by simp
  note w = submit_secret [OF assms(5) assms(6) sc li tm]
  have over: "gameState ?fin \<noteq> Playing" using w by simp
  have reg: "registered (timer ?fin) = []" using w by simp
  have "cc_run cfg (evs @ Submit # later) (cc_onMount cfg idxs now)
          = cc_run cfg later (cc_step cfg Submit ?st)"
    by (simp add: cc_run_def)
  also have "\<dots> = cc_run cfg later ?fin" by simp
  also have "\<dots> = ?fin" by (rule cc_run_over [OF over reg])
  finally have fin: "cc_run cfg (evs @ Submit # later) (cc_onMount cfg idxs now) = ?fin" .
  have a: "currentAttempt ?fin = 2" using w p assms(4) by simp
  have t: "timeLeft ?fin
             = (case lastTick 1 evs of None \<Rightarrow> duration cfg | Some t \<Rightarrow> duration cfg - (t - now))"
    using w p by simp
  have s: "secretCode ?fin = generateSecretCode idxs" using w p by simp
  have g: "gameState ?fin = Success" using w by simp
  have q: "pending ?fin = [(2000, True)]" using w p by simp
  show ?thesis unfolding fin using a t s g q by (simp add: cc_complete_def)
qed

lemma cc_example_before:
  "submissions cc_exampleConfig cc_exampleSession (cc_onMount cc_exampleConfig [0, 1, 2, 3] 0) = 2
   \<and> gameState (cc_run cc_exampleConfig cc_exampleSession (cc_onMount cc_exampleConfig [0, 1, 2, 3] 0))
       = Playing
   \<and> currentGuess (cc_run cc_exampleConfig cc_exampleSession (cc_onMount cc_exampleConfig [0, 1, 2, 3] 0))
       = secretCode (cc_run cc_exampleConfig cc_exampleSession (cc_onMount cc_exampleConfig [0, 1, 2, 3] 0))
   \<and> lastTick 1 cc_exampleSession = Some 3000
   \<and> codeLength cc_exampleConfig = 4 \<and> attempts cc_exampleConfig = 6
   \<and> duration cc_exampleConfig = 30000"
  by code_simp

theorem code_cracker_third_guess_witness:
  "gameState (cc_run cc_exampleConfig (cc_exampleSession @ Submit # [Tick 1 4000, Submit])
       (cc_onMount cc_exampleConfig [0, 1, 2, 3] 0)) = Success
   \<and> cc_complete True (cc_run cc_exampleConfig (cc_exampleSession @ Submit # [Tick 1 4000, Submit])
       (cc_onMount cc_exampleConfig [0, 1, 2, 3] 0))
     = \<lparr>success = True,
        data = [(''timeRemaining'', JNum 27000), (''attempts'', JNum 3),
                (''secretCode'', JSlots (generateSecretCode [0, 1, 2, 3]))]\<rparr>"
  using cc_example_before
    code_cracker_third_guess
      [of cc_exampleConfig "[0, 1, 2, 3]" cc_exampleSession 0 "[Tick 1 4000, Submit]"]
  by simp

text \<open>C5 as stated fails: in that session, with the countdown ticking, the event dispatched
  for the third and right guess has no field \<^verbatim>\<open>attemptsUsed\<close> equal to 3; the count is in
  \<^verbatim>\<open>attempts\<close>.\<close>

theorem attemptsUsed_not_emitted:
  "map_of (data (cc_complete True
      (cc_run cc_exampleConfig (cc_exampleSession @ [Submit])
         (cc_onMount cc_exampleConfig [0, 1, 2, 3] 0)))) ''attemptsUsed'' \<noteq> Some (JNum 3)
   \<and> map_of (data (cc_complete True
      (cc_run cc_exampleConfig (cc_exampleSession @ [Submit])
         (cc_onMount cc_exampleConfig [0, 1, 2, 3] 0)))) ''attempts'' = Some (JNum 3)
   \<and> gameState (cc_run cc_exampleConfig (cc_exampleSession @ [Submit])
         (cc_onMount cc_exampleConfig [0, 1, 2, 3] 0)) = Success"
  by code_simp

section \<open>The delay between the terminal state and the completion event\<close>

text \<open>
  C4 (amended).  Every \<^verbatim>\<open>handleGameOver\<close> schedules the completion callback with a delay fixed
  by the minigame: 1500 ms in Memory Sequence and Circuit Solver and 2000 ms in Code Cracker
  and Safe Cracker, whatever the outcome; in Thermite 1500 ms on success and 2500 ms on
  failure.  In the state it leaves, the handlers of tile clicks, piece clicks, position and
  colour choices, guess submissions, drag starts, drag moves and cell clicks return without
  changing anything.  Three inputs are still processed: releasing the dial (\<^verbatim>\<open>endDrag\<close>)
  clears the dragging flag and nothing else; the exit button (\<^verbatim>\<open>exit\<close>) leaves the component's
  state as it is and dispatches the exit event; and the Escape key, while a minigame is
  active (it is until the completion event arrives), makes the shell post the exit message
  and deactivate the minigame, as the exit event does.
\<close>

theorem presentation_delays:
  "pending (ms_handleGameOver ok m) = pending m @ [(1500, ok)]
   \<and> pending (cs_handleGameOver ok c) = pending c @ [(1500, ok)]
   \<and> pending (cc_handleGameOver ok k) = pending k @ [(2000, ok)]
   \<and> pending (sc_handleGameOver ok s) = pending s @ [(2000, ok)]
   \<and> pending (th_handleGameOver ok t) = pending t @ [(if ok then 1500 else 2500, ok)]
   \<and> handleTileClick e n (ms_handleGameOver ok m) = ms_handleGameOver ok m
   \<and> handlePieceClick r1 c1 (cs_handleGameOver ok c) = Inr (cs_handleGameOver ok c)
   \<and> selectPosition p (cc_handleGameOver ok k) = cc_handleGameOver ok k
   \<and> selectColor kcfg color (cc_handleGameOver ok k) = cc_handleGameOver ok k
   \<and> submitGuess kcfg (cc_handleGameOver ok k) = cc_handleGameOver ok k
   \<and> startDrag a (sc_handleGameOver ok s) = sc_handleGameOver ok s
   \<and> drag scfg a (sc_handleGameOver ok s) = sc_handleGameOver ok s
   \<and> handleCellClick r2 c2 (th_handleGameOver ok t) = Inr (th_handleGameOver ok t)
   \<and> endDrag (sc_handleGameOver ok s) = (sc_handleGameOver ok s)\<lparr>isDragging := False\<rparr>
   \<and> exit_component (ms_handleGameOver ok m) = (ms_handleGameOver ok m, ExitDispatched)
   \<and> exit_component (cs_handleGameOver ok c) = (cs_handleGameOver ok c, ExitDispatched)
   \<and> exit_component (cc_handleGameOver ok k) = (cc_handleGameOver ok k, ExitDispatched)
   \<and> exit_component (sc_handleGameOver ok s) = (sc_handleGameOver ok s, ExitDispatched)
   \<and> exit_component (th_handleGameOver ok t) = (th_handleGameOver ok t, ExitDispatched)
   \<and> handleKeydown ''Escape'' (app\<lparr>active := True\<rparr>)
       = (app\<lparr>active := False, minigameType := [], config := []\<rparr>, [MinigameExit])
   \<and> handleExit app = (app\<lparr>active := False, minigameType := [], config := []\<rparr>, [MinigameExit])"
proof -
  have k1: "handleKeydown ''Escape'' (app\<lparr>active := True\<rparr>)
       = (app\<lparr>active := False, minigameType := [], config := []\<rparr>, [MinigameExit])"
    by (simp add: handleKeydown_def handleExit_def)
  have k2: "handleExit app = (app\<lparr>active := False, minigameType := [], config := []\<rparr>, [MinigameExit])"
    by (simp add: handleExit_def)
  have st: "stop (stop x) = stop x" for x
    by (simp add: stop_def split: option.splits)
  have e0: "endDrag (sc_handleGameOver ok s) = (sc_handleGameOver ok s)\<lparr>isDragging := False\<rparr>"
    by (simp add: endDrag_def)
  have e1: "exit_component (ms_handleGameOver ok m) = (ms_handleGameOver ok m, ExitDispatched)"
    by (simp add: exit_component_def ms_handleGameOver_def st)
  have e2: "exit_component (cs_handleGameOver ok c) = (cs_handleGameOver ok c, ExitDispatched)"
    by (simp add: exit_component_def cs_handleGameOver_def st)
  have e3: "exit_component (cc_handleGameOver ok k) = (cc_handleGameOver ok k, ExitDispatched)"
    by (simp add: exit_component_def cc_handleGameOver_def st)
  have e4: "exit_component (sc_handleGameOver ok s) = (sc_handleGameOver ok s, ExitDispatched)"
    by (simp add: exit_component_def sc_handleGameOver_def showUnfoundZones_def Let_def st)
  have e5: "exit_component (th_handleGameOver ok t) = (th_handleGameOver ok t, ExitDispatched)"
    by (simp add: exit_component_def th_handleGameOver_def Let_def st)
  have ms: "gameState (ms_handleGameOver ok m) \<noteq> Input"
    by (simp add: ms_handleGameOver_def)
  have cs: "gameState (cs_handleGameOver ok c) \<noteq> Playing"
    by (simp add: cs_handleGameOver_def)
  have cc: "gameState (cc_handleGameOver ok k) \<noteq> Playing"
    by (simp add: cc_handleGameOver_def)
  have sc: "gameState (sc_handleGameOver ok s) \<noteq> Playing"
    by (simp add: sc_handleGameOver_def Let_def showUnfoundZones_def)
  have th: "gameState (th_handleGameOver ok t) \<noteq> Solving"
    by (simp add: th_handleGameOver_def Let_def)
  have d1: "pending (ms_handleGameOver ok m) = pending m @ [(1500, ok)]"
    by (simp add: ms_handleGameOver_def)
  have d2: "pending (cs_handleGameOver ok c) = pending c @ [(1500, ok)]"
    by (simp add: cs_handleGameOver_def)
  have d3: "pending (cc_handleGameOver ok k) = pending k @ [(2000, ok)]"
    by (simp add: cc_handleGameOver_def)
  have d4: "pending (sc_handleGameOver ok s) = pending s @ [(2000, ok)]"
    by (simp add: sc_handleGameOver_def Let_def showUnfoundZones_def)
  have d5: "pending (th_handleGameOver ok t) = pending t @ [(if ok then 1500 else 2500, ok)]"
    by (simp add: th_handleGameOver_def Let_def)
  have i1: "handleTileClick e n (ms_handleGameOver ok m) = ms_handleGameOver ok m"
    using ms by (simp add: handleTileClick_def)
  have i2: "handlePieceClick r1 c1 (cs_handleGameOver ok c) = Inr (cs_handleGameOver ok c)"
    using cs by (simp add: handlePieceClick_def)
  have i3: "selectPosition p (cc_handleGameOver ok k) = cc_handleGameOver ok k"
    using cc by (simp add: selectPosition_def)
  have i4: "selectColor kcfg color (cc_handleGameOver ok k) = cc_handleGameOver ok k"
    using cc by (simp add: selectColor_def)
  have i5: "submitGuess kcfg (cc_handleGameOver ok k) = cc_handleGameOver ok k"
    using cc by (simp add: submitGuess_def)
  have i6: "startDrag a (sc_handleGameOver ok s) = sc_handleGameOver ok s"
    using sc by (simp add: startDrag_def)
  have i7: "drag scfg a (sc_handleGameOver ok s) = sc_handleGameOver ok s"
    using sc by (simp add: drag_def)
  have i8: "handleCellClick r2 c2 (th_handleGameOver ok t) = Inr (th_handleGameOver ok t)"
    using th by (simp add: handleCellClick_def)
  from d1 d2 d3 d4 d5 i1 i2 i3 i4 i5 i6 i7 i8 e0 e1 e2 e3 e4 e5 k1 k2 show ?thesis by (intro conjI)
qed

theorem presentation_delays_witness:
  "pending (cc_handleGameOver True
      (cc_onMount \<lparr>difficulty = Easy, duration = 30000, soundEnabled = True, codeLength = 4, attempts = 6\<rparr>
         [0, 1, 2, 3] 0)) = [(2000, True)]
   \<and> pending (th_handleGameOver False
        \<lparr>gameState = Solving, timeLeft = 8000, timer = start 0 (newTimer 8000 0), pending = [],
         targets = [[True, False], [False, False]], playerGrid = [[False, False], [False, False]],
         targetCells = [(0, 0)], selectedCount = 0, incorrectSelections = 3, showExplosion = False\<rparr>)
       = [(2500, False)]
   \<and> pending (cs_handleGameOver False
        \<lparr>gameState = Playing, timeLeft = 0, timer = start 0 (newTimer 30000 0), pending = [],
         grid = [[Some (createPiece Source 0), Some (createPiece Destination 0)]],
         sourcePosition = (0, 0), destinationPosition = (0, 1)\<rparr>)
       = [(1500, False)]"
  using presentation_delays
    [of True
        "\<lparr>gameState = Input, timeLeft = 0, timer = start 0 (newTimer 5000 0), pending = [],
          sequence_ms = [0], playerSequence = [], currentIndex = 0\<rparr>"
        "\<lparr>gameState = Playing, timeLeft = 0, timer = start 0 (newTimer 30000 0), pending = [],
         grid = [[Some (createPiece Source 0), Some (createPiece Destination 0)]],
         sourcePosition = (0, 0), destinationPosition = (0, 1)\<rparr>"
        "cc_onMount \<lparr>difficulty = Easy, duration = 30000, soundEnabled = True, codeLength = 4, attempts = 6\<rparr>
         [0, 1, 2, 3] 0"
        "sc_initial \<lparr>difficulty = Easy, duration = 30000, soundEnabled = True, maxRotations = 1, zones = 5\<rparr> 0"
        "\<lparr>gameState = Solving, timeLeft = 8000, timer = start 0 (newTimer 8000 0), pending = [],
         targets = [[True, False], [False, False]], playerGrid = [[False, False], [False, False]],
         targetCells = [(0, 0)], selectedCount = 0, incorrectSelections = 3, showExplosion = False\<rparr>"]
    presentation_delays
    [of False
        "\<lparr>gameState = Input, timeLeft = 0, timer = start 0 (newTimer 5000 0), pending = [],
          sequence_ms = [0], playerSequence = [], currentIndex = 0\<rparr>"
        "\<lparr>gameState = Playing, timeLeft = 0, timer = start 0 (newTimer 30000 0), pending = [],
         grid = [[Some (createPiece Source 0), Some (createPiece Destination 0)]],
         sourcePosition = (0, 0), destinationPosition = (0, 1)\<rparr>"
        "cc_onMount \<lparr>difficulty = Easy, duration = 30000, soundEnabled = True, codeLength = 4, attempts = 6\<rparr>
         [0, 1, 2, 3] 0"
        "sc_initial \<lparr>difficulty = Easy, duration = 30000, soundEnabled = True, maxRotations = 1, zones = 5\<rparr> 0"
        "\<lparr>gameState = Solving, timeLeft = 8000, timer = start 0 (newTimer 8000 0), pending = [],
         targets = [[True, False], [False, False]], playerGrid = [[False, False], [False, False]],
         targetCells = [(0, 0)], selectedCount = 0, incorrectSelections = 3, showExplosion = False\<rparr>"]
  by (simp add: cc_onMount_def cc_startGame_def resetGame_def cc_initial_def)

text \<open>C4 as stated fails twice: a Code Cracker success is reported after 2000 ms, not
  1500 ms; and an input is still accepted during the delay: after a Safe Cracker game over in
  the middle of a drag, releasing the dial changes the state (and in every minigame the
  Escape key still ends the session with the exit message).\<close>

theorem terminal_delay_counterexample:
  "pending (cc_handleGameOver True
      (cc_onMount \<lparr>difficulty = Easy, duration = 30000, soundEnabled = True, codeLength = 4, attempts = 6\<rparr>
         [0, 1, 2, 3] 0)) \<noteq> [(1500, True)]
   \<and> endDrag (sc_handleGameOver False
        \<lparr>gameState = Playing, timeLeft = 1200, timer = start 0 (newTimer 30000 0), pending = [],
         currentRotation = 15, rotationCount = 1, maxRotationCount = 2, isDragging = True,
         prevAngle = 14, successZones = [\<lparr>zoneStart = 10, zoneEnd = 30, found = True\<rparr>,
                                         \<lparr>zoneStart = 100, zoneEnd = 120, found = False\<rparr>],
         foundZonesCount = 1, dialHistory = [15]\<rparr>)
      \<noteq> sc_handleGameOver False
        \<lparr>gameState = Playing, timeLeft = 1200, timer = start 0 (newTimer 30000 0), pending = [],
         currentRotation = 15, rotationCount = 1, maxRotationCount = 2, isDragging = True,
         prevAngle = 14, successZones = [\<lparr>zoneStart = 10, zoneEnd = 30, found = True\<rparr>,
                                         \<lparr>zoneStart = 100, zoneEnd = 120, found = False\<rparr>],
         foundZonesCount = 1, dialHistory = [15]\<rparr>
   \<and> handleKeydown ''Escape'' \<lparr>active = True, minigameType = ''safe_cracker'', config = []\<rparr>
      \<noteq> (\<lparr>active = True, minigameType = ''safe_cracker'', config = []\<rparr>, [])"
proof -
  have c: "handleKeydown ''Escape'' \<lparr>active = True, minigameType = ''safe_cracker'', config = []\<rparr>
      \<noteq> (\<lparr>active = True, minigameType = ''safe_cracker'', config = []\<rparr>, [])"
    by (simp add: handleKeydown_def handleExit_def)
  have a: "pending (cc_handleGameOver True
      (cc_onMount \<lparr>difficulty = Easy, duration = 30000, soundEnabled = True, codeLength = 4, attempts = 6\<rparr>
         [0, 1, 2, 3] 0)) \<noteq> [(1500, True)]"
    by (simp add: cc_handleGameOver_def cc_onMount_def cc_startGame_def resetGame_def cc_initial_def)
  have "isDragging (endDrag x) \<noteq> isDragging (sc_handleGameOver False
        \<lparr>gameState = Playing, timeLeft = 1200, timer = start 0 (newTimer 30000 0), pending = [],
         currentRotation = 15, rotationCount = 1, maxRotationCount = 2, isDragging = True,
         prevAngle = 14, successZones = [\<lparr>zoneStart = 10, zoneEnd = 30, found = True\<rparr>,
                                         \<lparr>zoneStart = 100, zoneEnd = 120, found = False\<rparr>],
         foundZonesCount = 1, dialHistory = [15]\<rparr>)" for x
    by (simp add: endDrag_def sc_handleGameOver_def showUnfoundZones_def Let_def)
  then have b: "endDrag x \<noteq> sc_handleGameOver False
        \<lparr>gameState = Playing, timeLeft = 1200, timer = start 0 (newTimer 30000 0), pending = [],
         currentRotation = 15, rotationCount = 1, maxRotationCount = 2, isDragging = True,
         prevAngle = 14, successZones = [\<lparr>zoneStart = 10, zoneEnd = 30, found = True\<rparr>,
                                         \<lparr>zoneStart = 100, zoneEnd = 120, found = False\<rparr>],
         foundZonesCount = 1, dialHistory = [15]\<rparr>" for x
    by metis
  from a b c show ?thesis by (intro conjI)
qed

section \<open>Safe Cracker: the metrics of a failed session\<close>

lemma sc_run_snoc: "sc_run cfg (evs @ [e]) st = sc_step cfg e (sc_run cfg evs st)"
  by (simp add: sc_run_def)

lemma dialPositions_snoc:
  "dialPositions cfg (evs @ [e]) st =
     dialPositions cfg evs st
     @ (if turnsDial e (sc_run cfg evs st)
        then [currentRotation (sc_step cfg e (sc_run cfg evs st))] else [])"
  by (induction evs arbitrary: st) (simp_all add: sc_run_def)

lemma showUnfoundZones_all: "list_all found (successZones (showUnfoundZones st))"
  by (auto simp: showUnfoundZones_def list_all_iff)

lemma showUnfoundZones_bounds:
  "map zoneStart (successZones (showUnfoundZones st)) = map zoneStart (successZones st)"
  "map zoneEnd (successZones (showUnfoundZones st)) = map zoneEnd (successZones st)"
  by (simp_all add: showUnfoundZones_def)

lemma sc_handleGameOver_fields:
  "gameState (sc_handleGameOver ok st) = (if ok then Success else Failure)"
  "foundZonesCount (sc_handleGameOver ok st) = foundZonesCount st"
  "timeLeft (sc_handleGameOver ok st) = timeLeft st"
  "timer (sc_handleGameOver ok st) = stop (timer st)"
  "pending (sc_handleGameOver ok st) = pending st @ [(2000, ok)]"
  "successZones (sc_handleGameOver False st) = successZones (showUnfoundZones st)"
  "successZones (sc_handleGameOver True st) = successZones st"
  by (simp_all add: sc_handleGameOver_def showUnfoundZones_def Let_def)

lemma flag_bounds:
  assumes "k < length zs"
  shows "map zoneStart (zs[k := (zs ! k)\<lparr>found := True\<rparr>]) = map zoneStart zs"
    and "map zoneEnd (zs[k := (zs ! k)\<lparr>found := True\<rparr>]) = map zoneEnd zs"
  using assms by (simp_all add: map_update list_update_same_conv)

lemma bounds_nth:
  assumes "map zoneStart ys = map zoneStart zs" and "map zoneEnd ys = map zoneEnd zs"
    and "i < length zs"
  shows "zoneStart (ys ! i) = zoneStart (zs ! i) \<and> zoneEnd (ys ! i) = zoneEnd (zs ! i)
       \<and> length ys = length zs"
proof -
  have l: "length ys = length zs" using assms(1) by (metis length_map)
  have "map zoneStart ys ! i = map zoneStart zs ! i" "map zoneEnd ys ! i = map zoneEnd zs ! i"
    using assms by simp_all
  then show ?thesis using l assms(3) by simp
qed

text \<open>One round of the zone loop.\<close>

lemma checkZones_skip:
  assumes "\<not> (\<not> found (successZones st ! i)
                \<and> currentRotation st \<ge> of_int (zoneStart (successZones st ! i))
                \<and> currentRotation st \<le> of_int (zoneEnd (successZones st ! i)))"
  shows "checkZones cfg (i # is) st = checkZones cfg is st"
  using assms by (auto simp: Let_def)

lemma checkZones_hit:
  assumes "\<not> found (successZones st ! i)"
    and "currentRotation st \<ge> of_int (zoneStart (successZones st ! i))"
    and "currentRotation st \<le> of_int (zoneEnd (successZones st ! i))"
  shows "checkZones cfg (i # is) st =
     (if foundZonesCount st + 1 = zones cfg
      then sc_handleGameOver True
             (st\<lparr>successZones := (successZones st)[i := (successZones st ! i)\<lparr>found := True\<rparr>],
                 foundZonesCount := foundZonesCount st + 1\<rparr>)
      else if rotationCount st + 1 \<ge> maxRotationCount st
      then sc_handleGameOver False
             (st\<lparr>successZones := (successZones st)[i := (successZones st ! i)\<lparr>found := True\<rparr>],
                 foundZonesCount := foundZonesCount st + 1,
                 rotationCount := rotationCount st + 1\<rparr>)
      else checkZones cfg is
             (st\<lparr>successZones := (successZones st)[i := (successZones st ! i)\<lparr>found := True\<rparr>],
                 foundZonesCount := foundZonesCount st + 1,
                 rotationCount := rotationCount st + 1\<rparr>))"
  using assms by (simp add: Let_def)

text \<open>The zone loop when no zone it visits is both unfound and under the dial.\<close>

lemma checkZones_none:
  assumes "\<forall>i\<in>set is. \<not> (\<not> found (successZones st ! i)
                \<and> currentRotation st \<ge> of_int (zoneStart (successZones st ! i))
                \<and> currentRotation st \<le> of_int (zoneEnd (successZones st ! i)))"
  shows "checkZones cfg is st = st"
  using assms
proof (induction "is")
  case Nil
  show ?case by simp
next
  case (Cons i "is")
  have "checkZones cfg (i # is) st = checkZones cfg is st"
    by (rule checkZones_skip) (use Cons.prems in simp)
  also have "\<dots> = st" by (rule Cons.IH) (use Cons.prems in simp)
  finally show ?case .
qed

text \<open>The zone loop when the dial stands in one unfound zone \<open>k\<close> and in no other zone.\<close>

lemma checkZones_one:
  assumes "\<forall>i\<in>set pre. \<not> (currentRotation st \<ge> of_int (zoneStart (successZones st ! i))
                \<and> currentRotation st \<le> of_int (zoneEnd (successZones st ! i)))"
    and "\<forall>i\<in>set post. i \<noteq> k \<longrightarrow> \<not> (currentRotation st \<ge> of_int (zoneStart (successZones st ! i))
                \<and> currentRotation st \<le> of_int (zoneEnd (successZones st ! i)))"
    and "k < length (successZones st)"
    and "\<not> found (successZones st ! k)"
    and "currentRotation st \<ge> of_int (zoneStart (successZones st ! k))"
    and "currentRotation st \<le> of_int (zoneEnd (successZones st ! k))"
  shows "checkZones cfg (pre @ k # post) st =
     (if foundZonesCount st + 1 = zones cfg
      then sc_handleGameOver True
             (st\<lparr>successZones := (successZones st)[k := (successZones st ! k)\<lparr>found := True\<rparr>],
                 foundZonesCount := foundZonesCount st + 1\<rparr>)
      else if rotationCount st + 1 \<ge> maxRotationCount st
      then sc_handleGameOver False
             (st\<lparr>successZones := (successZones st)[k := (successZones st ! k)\<lparr>found := True\<rparr>],
                 foundZonesCount := foundZonesCount st + 1,
                 rotationCount := rotationCount st + 1\<rparr>)
      else st\<lparr>successZones := (successZones st)[k := (successZones st ! k)\<lparr>found := True\<rparr>],
                 foundZonesCount := foundZonesCount st + 1,
                 rotationCount := rotationCount st + 1\<rparr>)"
  using assms(1)
proof (induction pre)
  case Nil
  let ?st2 = "st\<lparr>successZones := (successZones st)[k := (successZones st ! k)\<lparr>found := True\<rparr>],
                 foundZonesCount := foundZonesCount st + 1,
                 rotationCount := rotationCount st + 1\<rparr>"
  have "\<forall>i\<in>set post. \<not> (\<not> found (successZones ?st2 ! i)
                \<and> currentRotation ?st2 \<ge> of_int (zoneStart (successZones ?st2 ! i))
                \<and> currentRotation ?st2 \<le> of_int (zoneEnd (successZones ?st2 ! i)))"
  proof
    fix i assume i: "i \<in> set post"
    show "\<not> (\<not> found (successZones ?st2 ! i)
                \<and> currentRotation ?st2 \<ge> of_int (zoneStart (successZones ?st2 ! i))
                \<and> currentRotation ?st2 \<le> of_int (zoneEnd (successZones ?st2 ! i)))"
    proof (cases "i = k")
      case True
      then show ?thesis using assms(3) by simp
    next
      case False
      then show ?thesis using assms(2) i by simp
    qed
  qed
  then have rest: "checkZones cfg post ?st2 = ?st2" by (rule checkZones_none)
  show ?case
    unfolding append_Nil checkZones_hit [OF assms(4,5,6)] rest ..
next
  case (Cons i pre)
  have s: "checkZones cfg ((i # pre) @ k # post) st = checkZones cfg (pre @ k # post) st"
    unfolding append_Cons by (rule checkZones_skip) (use Cons.prems in simp)
  have "\<forall>i\<in>set pre. \<not> (currentRotation st \<ge> of_int (zoneStart (successZones st ! i))
                \<and> currentRotation st \<le> of_int (zoneEnd (successZones st ! i)))"
    using Cons.prems by simp
  then show ?case unfolding s by (rule Cons.IH)
qed


lemma upt_split: "k < n \<Longrightarrow> [0..<n] = [0..<k] @ k # [Suc k..<n]"
  by (metis le0 upt_conv_Cons upt_add_eq_append le_add_diff_inverse less_imp_le)

text \<open>The zones entered, when the dial is turned once more.\<close>

lemma enteredZones_mem:
  "i \<in> set (enteredZones zs rs) \<longleftrightarrow>
     i < length zs \<and> (\<exists>r\<in>set rs. of_int (zoneStart (zs ! i)) \<le> r \<and> r \<le> of_int (zoneEnd (zs ! i)))"
  by (auto simp: enteredZones_def list_ex_iff)

lemma enteredZones_length: "length (enteredZones zs rs) = card (set (enteredZones zs rs))"
  by (rule distinct_card [symmetric]) (simp add: enteredZones_def)

lemma enteredZones_same:
  assumes "\<forall>i<length zs. of_int (zoneStart (zs ! i)) \<le> r \<and> r \<le> of_int (zoneEnd (zs ! i))
             \<longrightarrow> i \<in> set (enteredZones zs rs)"
  shows "enteredZones zs (rs @ [r]) = enteredZones zs rs"
  unfolding enteredZones_def
proof (rule filter_cong [OF refl])
  fix i assume "i \<in> set [0..<length zs]"
  then have i: "i < length zs" by simp
  show "list_ex (\<lambda>r. of_int (zoneStart (zs ! i)) \<le> r \<and> r \<le> of_int (zoneEnd (zs ! i))) (rs @ [r])
      = list_ex (\<lambda>r. of_int (zoneStart (zs ! i)) \<le> r \<and> r \<le> of_int (zoneEnd (zs ! i))) rs"
    using assms i by (auto simp: enteredZones_mem list_ex_iff)
qed

lemma enteredZones_new:
  assumes "k < length zs"
    and "of_int (zoneStart (zs ! k)) \<le> r \<and> r \<le> of_int (zoneEnd (zs ! k))"
    and "\<forall>i<length zs. i \<noteq> k \<longrightarrow> \<not> (of_int (zoneStart (zs ! i)) \<le> r \<and> r \<le> of_int (zoneEnd (zs ! i)))"
    and "k \<notin> set (enteredZones zs rs)"
  shows "set (enteredZones zs (rs @ [r])) = insert k (set (enteredZones zs rs))"
    and "length (enteredZones zs (rs @ [r])) = length (enteredZones zs rs) + 1"
proof -
  show s: "set (enteredZones zs (rs @ [r])) = insert k (set (enteredZones zs rs))"
  proof (rule set_eqI)
    fix i
    show "i \<in> set (enteredZones zs (rs @ [r])) \<longleftrightarrow> i \<in> insert k (set (enteredZones zs rs))"
      using assms(1,2,3) by (cases "i = k") (auto simp: enteredZones_mem)
  qed
  have "card (insert k (set (enteredZones zs rs))) = card (set (enteredZones zs rs)) + 1"
    using assms(4) by simp
  then show "length (enteredZones zs (rs @ [r])) = length (enteredZones zs rs) + 1"
    unfolding enteredZones_length s .
qed

text \<open>Generated zones are strictly apart, so the dial stands in one zone at most.\<close>

lemma zone_unique:
  assumes "goodZones zs" and "i < length zs" and "k < length zs"
    and "of_int (zoneStart (zs ! i)) \<le> (r::real) \<and> r \<le> of_int (zoneEnd (zs ! i))"
    and "of_int (zoneStart (zs ! k)) \<le> r \<and> r \<le> of_int (zoneEnd (zs ! k))"
  shows "i = k"
proof (rule ccontr)
  assume "i \<noteq> k"
  then have "zoneEnd (zs ! i) < zoneStart (zs ! k) \<or> zoneEnd (zs ! k) < zoneStart (zs ! i)"
    using assms(1,2,3) by (simp add: goodZones_def)
  then have "(of_int (zoneEnd (zs ! i)) :: real) < of_int (zoneStart (zs ! k))
           \<or> (of_int (zoneEnd (zs ! k)) :: real) < of_int (zoneStart (zs ! i))"
    by simp
  then show False using assms(4,5) by linarith
qed

text \<open>The invariant does not read the dial, the drag or the displayed time.\<close>

lemma sc_inv_frame:
  "sc_inv cfg zs now rs (st\<lparr>prevAngle := a\<rparr>) = sc_inv cfg zs now rs st"
  "sc_inv cfg zs now rs (st\<lparr>isDragging := b\<rparr>) = sc_inv cfg zs now rs st"
  "sc_inv cfg zs now rs (st\<lparr>timeLeft := t\<rparr>) = sc_inv cfg zs now rs st"
  "sc_inv cfg zs now rs (st\<lparr>currentRotation := r, dialHistory := h\<rparr>) = sc_inv cfg zs now rs st"
  by (simp_all add: sc_inv_def)

text \<open>The zone check after a turn of the dial keeps the invariant, the position the dial
  stands at being counted among the positions.\<close>

lemma checkSuccessZones_inv:
  assumes g: "goodZones zs" and inv: "sc_inv cfg zs now rs st" and play: "gameState st = Playing"
  shows "sc_inv cfg zs now (rs @ [currentRotation st]) (checkSuccessZones cfg st)"
proof -
  let ?r = "currentRotation st"
  let ?ys = "successZones st"
  have b1: "map zoneStart ?ys = map zoneStart zs" and b2: "map zoneEnd ?ys = map zoneEnd zs"
    using inv by (simp_all add: sc_inv_def)
  have len: "length ?ys = length zs" using b1 by (metis length_map)
  have bs: "zoneStart (?ys ! i) = zoneStart (zs ! i) \<and> zoneEnd (?ys ! i) = zoneEnd (zs ! i)"
    if "i < length zs" for i
    using bounds_nth [OF b1 b2 that] by simp
  have flags: "found (?ys ! i) \<longleftrightarrow> i \<in> set (enteredZones zs rs)" if "i < length zs" for i
    using inv play that by (simp add: sc_inv_def)
  have cnt: "foundZonesCount st = length (enteredZones zs rs)" using inv by (simp add: sc_inv_def)
  have tm: "timer st = start now (newTimer (duration cfg) now)" and pe: "pending st = []"
    and lim: "zones cfg = 0 \<or> foundZonesCount st < zones cfg"
    using inv play by (auto simp: sc_inv_def)
  show ?thesis
  proof (cases "\<forall>i<length zs. of_int (zoneStart (zs ! i)) \<le> ?r \<and> ?r \<le> of_int (zoneEnd (zs ! i))
             \<longrightarrow> i \<in> set (enteredZones zs rs)")
    case True
    have "\<forall>i\<in>set [0..<length ?ys]. \<not> (\<not> found (?ys ! i)
                \<and> ?r \<ge> of_int (zoneStart (?ys ! i)) \<and> ?r \<le> of_int (zoneEnd (?ys ! i)))"
      using True bs flags len by auto
    then have e: "checkSuccessZones cfg st = st"
      unfolding checkSuccessZones_def by (rule checkZones_none)
    show ?thesis using inv unfolding e sc_inv_def enteredZones_same [OF True] .
  next
    case False
    then obtain k where k: "k < length zs"
      and kin: "of_int (zoneStart (zs ! k)) \<le> ?r \<and> ?r \<le> of_int (zoneEnd (zs ! k))"
      and knew: "k \<notin> set (enteredZones zs rs)"
      by blast
    have others: "\<forall>i<length zs. i \<noteq> k \<longrightarrow>
        \<not> (of_int (zoneStart (zs ! i)) \<le> ?r \<and> ?r \<le> of_int (zoneEnd (zs ! i)))"
      using zone_unique [OF g _ k _ kin] by blast
    note new = enteredZones_new [OF k kin others knew]
    have kl: "k < length ?ys" using k len by simp
    have nf: "\<not> found (?ys ! k)" using flags [OF k] knew by simp
    have in1: "?r \<ge> of_int (zoneStart (?ys ! k))" and in2: "?r \<le> of_int (zoneEnd (?ys ! k))"
      using kin bs [OF k] by simp_all
    have pre: "\<forall>i\<in>set [0..<k]. \<not> (?r \<ge> of_int (zoneStart (?ys ! i)) \<and> ?r \<le> of_int (zoneEnd (?ys ! i)))"
      using others bs k by auto
    have post: "\<forall>i\<in>set [Suc k..<length ?ys]. i \<noteq> k \<longrightarrow>
         \<not> (?r \<ge> of_int (zoneStart (?ys ! i)) \<and> ?r \<le> of_int (zoneEnd (?ys ! i)))"
      using others bs len by auto
    let ?ys' = "?ys[k := (?ys ! k)\<lparr>found := True\<rparr>]"
    have fb1: "map zoneStart ?ys' = map zoneStart zs" and fb2: "map zoneEnd ?ys' = map zoneEnd zs"
      using flag_bounds [OF kl] b1 b2 by simp_all
    have fl: "found (?ys' ! i) \<longleftrightarrow> i \<in> set (enteredZones zs (rs @ [?r]))" if "i < length zs" for i
      using that flags [OF that] len new(1) by (cases "i = k") simp_all
    have res: "checkSuccessZones cfg st =
     (if foundZonesCount st + 1 = zones cfg
      then sc_handleGameOver True
             (st\<lparr>successZones := ?ys', foundZonesCount := foundZonesCount st + 1\<rparr>)
      else if rotationCount st + 1 \<ge> maxRotationCount st
      then sc_handleGameOver False
             (st\<lparr>successZones := ?ys', foundZonesCount := foundZonesCount st + 1,
                 rotationCount := rotationCount st + 1\<rparr>)
      else st\<lparr>successZones := ?ys', foundZonesCount := foundZonesCount st + 1,
                 rotationCount := rotationCount st + 1\<rparr>)"
      unfolding checkSuccessZones_def upt_split [OF kl]
      by (rule checkZones_one [OF pre post kl nf in1 in2])
    show ?thesis
    proof (cases "foundZonesCount st + 1 = zones cfg")
      case True
      then show ?thesis
        unfolding res
        using fb1 fb2 cnt new(2) tm
        by (simp add: sc_inv_def sc_handleGameOver_fields stop_started)
    next
      case nowin: False
      have lim': "zones cfg = 0 \<or> foundZonesCount st + 1 < zones cfg" using lim nowin by auto
      show ?thesis
      proof (cases "rotationCount st + 1 \<ge> maxRotationCount st")
        case True
        have all: "list_all found (successZones (showUnfoundZones x))" for x
          by (rule showUnfoundZones_all)
        show ?thesis
          unfolding res
          using True nowin fb1 fb2 cnt new(2) tm pe lim' all
          by (simp add: sc_inv_def sc_handleGameOver_fields stop_started
              showUnfoundZones_bounds)
      next
        case False
        show ?thesis
          unfolding res
          using False nowin fb1 fb2 cnt new(2) tm pe lim' fl play
          by (simp add: sc_inv_def)
      qed
    qed
  qed
qed


text \<open>What the interval coming due does to a component whose timer runs.\<close>

lemma sc_interval_running:
  assumes "timer st = start s (newTimer d c)"
  shows "sc_interval h now st =
           (if h \<noteq> 1 then st
            else if d - (now - s) \<le> 0
            then sc_handleGameOver False (st\<lparr>timer := stop (timer st), timeLeft := 0\<rparr>)
            else st\<lparr>timeLeft := d - (now - s)\<rparr>)"
  using assms
  by (simp add: sc_interval_def fire_def tick_def start_def newTimer_def Let_def max_def)

lemma sc_interval_cleared:
  assumes "registered (timer st) = []"
  shows "sc_interval h now st = st"
  using assms by (simp add: sc_interval_def fire_def)

text \<open>Every event keeps the invariant.\<close>

lemma sc_step_inv:
  assumes g: "goodZones zs" and inv: "sc_inv cfg zs now rs st"
  shows "sc_inv cfg zs now
           (rs @ (if turnsDial e st then [currentRotation (sc_step cfg e st)] else []))
           (sc_step cfg e st)"
proof (cases e)
  case (DialTick h t)
  show ?thesis
  proof (cases "gameState st = Playing")
    case True
    have tm: "timer st = start now (newTimer (duration cfg) now)"
      using inv True by (simp add: sc_inv_def)
    have all: "list_all found (successZones (showUnfoundZones x))" for x
      by (rule showUnfoundZones_all)
    show ?thesis
      using inv True all
      unfolding DialTick turnsDial.simps sc_step.simps sc_interval_running [OF tm]
      by (auto simp: sc_inv_def sc_handleGameOver_fields showUnfoundZones_bounds
          stop_idem stop_started)
  next
    case False
    then have "registered (timer st) = []" using inv by (simp add: sc_inv_def)
    then show ?thesis using inv DialTick by (simp add: sc_interval_cleared)
  qed
next
  case (MouseDown angle)
  show ?thesis
    using inv unfolding MouseDown turnsDial.simps sc_step.simps startDrag_def
    by (cases angle) (simp_all add: sc_inv_def)
next
  case MouseUp
  show ?thesis
    using inv unfolding MouseUp turnsDial.simps sc_step.simps endDrag_def
    by (simp add: sc_inv_frame)
next
  case (MouseMove angle)
  show ?thesis
  proof (cases angle)
    case None
    show ?thesis using inv unfolding MouseMove None by (simp add: drag_def)
  next
    case (Some a)
    show ?thesis
    proof (cases "isDragging st \<and> gameState st = Playing")
      case False
      then show ?thesis using inv unfolding MouseMove Some by (auto simp: drag_def)
    next
      case True
      define delta where "delta = (if a - prevAngle st > 180 then a - prevAngle st - 360
                            else if a - prevAngle st < - 180 then a - prevAngle st + 360
                            else a - prevAngle st)"
      define r where "r = js_rem (currentRotation st + delta) 360"
      define st1 where "st1 = st\<lparr>currentRotation := (if r < 0 then r + 360 else r),
          dialHistory := (if length (dialHistory st @ [if r < 0 then r + 360 else r]) > 100
                          then tl (dialHistory st @ [if r < 0 then r + 360 else r])
                          else dialHistory st @ [if r < 0 then r + 360 else r])\<rparr>"
      have d: "drag cfg (Some a) st = (checkSuccessZones cfg st1)\<lparr>prevAngle := a\<rparr>"
        using True by (simp add: drag_def rotateDial_def Let_def delta_def r_def st1_def)
      have i1: "sc_inv cfg zs now rs st1" unfolding st1_def sc_inv_frame by (rule inv)
      have p1: "gameState st1 = Playing" using True by (simp add: st1_def)
      note c = checkSuccessZones_inv [OF g i1 p1]
      have rot: "currentRotation (checkZones cfg is x) = currentRotation x" for "is" x
      proof (induction "is" arbitrary: x)
        case Nil
        show ?case by simp
      next
        case (Cons i "is")
        show ?case
          by (simp add: Let_def Cons sc_handleGameOver_def showUnfoundZones_def)
      qed
      have cr: "currentRotation (drag cfg (Some a) st) = currentRotation st1"
        unfolding d by (simp add: checkSuccessZones_def rot)
      show ?thesis
        using True c unfolding MouseMove Some turnsDial.simps sc_step.simps cr
        unfolding d by (simp add: sc_inv_frame)
    qed
  qed
qed

lemma placeZones_unfound:
  "placeZones n zs us = Some zs' \<Longrightarrow> \<forall>z\<in>set zs. \<not> found z \<Longrightarrow> \<forall>z\<in>set zs'. \<not> found z"
proof (induction n zs us arbitrary: zs' rule: placeZones.induct)
  case (1 zs us)
  then show ?case by simp
next
  case (2 n zs)
  then show ?case by simp
next
  case (3 n zs u us)
  then show ?case
    by (auto simp: Let_def split: option.splits)
qed

text \<open>The mounted component: its zones are as generated, none found, and the invariant
  holds with no position reached yet.\<close>

lemma sc_onMount_inv:
  assumes "sc_onMount cfg us now = Some st0"
  shows "goodZones (successZones st0) \<and> length (successZones st0) = zones cfg
       \<and> sc_inv cfg (successZones st0) now [] st0"
proof -
  from assms obtain zs where zs: "generateSuccessZones cfg us = Some zs"
    and st: "st0 = sc_startGame now ((sc_initial cfg now)\<lparr>successZones := zs\<rparr>)"
    by (auto simp: sc_onMount_def)
  have nf: "\<forall>z\<in>set zs. \<not> found z"
    using placeZones_unfound [of "zones cfg" "[]" us zs] zs by (simp add: generateSuccessZones_def)
  have "goodZones []" by (simp add: goodZones_def)
  then have gz: "goodZones zs \<and> length zs = zones cfg"
    using placeZones_good [of "zones cfg" "[]" us zs] zs by (simp add: generateSuccessZones_def)
  have e: "enteredZones zs [] = []" by (simp add: enteredZones_def)
  have z: "successZones st0 = zs" by (simp add: st sc_startGame_def)
  have "sc_inv cfg zs now [] st0"
    using nf gz unfolding sc_inv_def e
    by (auto simp: st sc_startGame_def sc_initial_def)
  then show ?thesis using gz z by simp
qed

lemma sc_run_inv:
  assumes "sc_onMount cfg us now = Some st0"
  shows "sc_inv cfg (successZones st0) now (dialPositions cfg evs st0) (sc_run cfg evs st0)"
proof (induction evs rule: rev_induct)
  case Nil
  show ?case using sc_onMount_inv [OF assms] by (simp add: sc_run_def)
next
  case (snoc e evs)
  have g: "goodZones (successZones st0)" using sc_onMount_inv [OF assms] by simp
  show ?case
    unfolding sc_run_snoc dialPositions_snoc by (rule sc_step_inv [OF g snoc])
qed

text \<open>
  C10.  A Safe Cracker session: the component is mounted (the zones generated from the draws
  \<open>us\<close>), then any events happen: the countdown's interval coming due, the mouse pressed,
  moved and released.  If the session has ended in failure, then every zone's \<^verbatim>\<open>found\<close> flag
  is set (all \<^verbatim>\<open>config.zones\<close> of them), one completion callback is scheduled with
  \<open>success = false\<close>, and the event it dispatches reports as \<^verbatim>\<open>zonesFound\<close> the number of
  zones that contain a position the dial was turned to, and as \<^verbatim>\<open>totalZones\<close> the configured
  number of zones.  Unless there are no zones at all, \<^verbatim>\<open>zonesFound\<close> is below \<^verbatim>\<open>totalZones\<close>,
  so it is not the number of flags set.
\<close>

theorem safe_cracker_failure_metrics:
  assumes "sc_onMount cfg us now = Some st0"
    and "gameState (sc_run cfg evs st0) = Failure"
  shows "list_all found (successZones (sc_run cfg evs st0))
       \<and> length (successZones (sc_run cfg evs st0)) = zones cfg
       \<and> pending (sc_run cfg evs st0) = [(2000, False)]
       \<and> sc_complete cfg False (sc_run cfg evs st0)
           = \<lparr>success = False,
              data = [(''timeRemaining'', JNum (timeLeft (sc_run cfg evs st0))),
                      (''zonesFound'',
                         JNum (int (length (enteredZones (successZones st0)
                                              (dialPositions cfg evs st0))))),
                      (''totalZones'', JNum (int (zones cfg)))]\<rparr>
       \<and> (zones cfg = 0
            \<or> length (enteredZones (successZones st0) (dialPositions cfg evs st0)) < zones cfg)"
proof -
  note i = sc_run_inv [OF assms(1), of evs, unfolded sc_inv_def]
  note m = sc_onMount_inv [OF assms(1)]
  have l: "length (successZones (sc_run cfg evs st0)) = length (successZones st0)"
    using i by (metis length_map)
  have c: "foundZonesCount (sc_run cfg evs st0)
             = length (enteredZones (successZones st0) (dialPositions cfg evs st0))"
    using i by simp
  have f: "list_all found (successZones (sc_run cfg evs st0))
         \<and> pending (sc_run cfg evs st0) = [(2000, False)]
         \<and> (zones cfg = 0
              \<or> length (enteredZones (successZones st0) (dialPositions cfg evs st0)) < zones cfg)"
    using i assms(2) by simp
  show ?thesis using l c f m by (simp add: sc_complete_def)
qed

lemma sc_example_mount:
  "sc_onMount sc_exampleConfig
     [Abs_draw 0, Abs_draw 0, Abs_draw (1 / 2), Abs_draw 0, Abs_draw (1 / 2)] 0
   = Some (sc_startGame 0 ((sc_initial sc_exampleConfig 0)
        \<lparr>successZones := [\<lparr>zoneStart = 0, zoneEnd = 10, found = False\<rparr>,
                          \<lparr>zoneStart = 170, zoneEnd = 190, found = False\<rparr>]\<rparr>))"
  using example_zones by (simp add: sc_onMount_def sc_exampleConfig_def)

lemma sc_example_run:
  "gameState (sc_run sc_exampleConfig sc_exampleSession
      (sc_startGame 0 ((sc_initial sc_exampleConfig 0)
        \<lparr>successZones := [\<lparr>zoneStart = 0, zoneEnd = 10, found = False\<rparr>,
                          \<lparr>zoneStart = 170, zoneEnd = 190, found = False\<rparr>]\<rparr>))) = Failure
   \<and> timeLeft (sc_run sc_exampleConfig sc_exampleSession
      (sc_startGame 0 ((sc_initial sc_exampleConfig 0)
        \<lparr>successZones := [\<lparr>zoneStart = 0, zoneEnd = 10, found = False\<rparr>,
                          \<lparr>zoneStart = 170, zoneEnd = 190, found = False\<rparr>]\<rparr>))) = 0
   \<and> dialPositions sc_exampleConfig sc_exampleSession
      (sc_startGame 0 ((sc_initial sc_exampleConfig 0)
        \<lparr>successZones := [\<lparr>zoneStart = 0, zoneEnd = 10, found = False\<rparr>,
                          \<lparr>zoneStart = 170, zoneEnd = 190, found = False\<rparr>]\<rparr>)) = [5]
   \<and> enteredZones [\<lparr>zoneStart = 0, zoneEnd = 10, found = False\<rparr>,
                    \<lparr>zoneStart = 170, zoneEnd = 190, found = False\<rparr>] [5] = [0]
   \<and> zones sc_exampleConfig = 2"
  by code_simp

theorem safe_cracker_failure_metrics_witness:
  "sc_onMount sc_exampleConfig
     [Abs_draw 0, Abs_draw 0, Abs_draw (1 / 2), Abs_draw 0, Abs_draw (1 / 2)] 0
   = Some (sc_startGame 0 ((sc_initial sc_exampleConfig 0)
        \<lparr>successZones := [\<lparr>zoneStart = 0, zoneEnd = 10, found = False\<rparr>,
                          \<lparr>zoneStart = 170, zoneEnd = 190, found = False\<rparr>]\<rparr>))
   \<and> gameState (sc_run sc_exampleConfig sc_exampleSession
      (sc_startGame 0 ((sc_initial sc_exampleConfig 0)
        \<lparr>successZones := [\<lparr>zoneStart = 0, zoneEnd = 10, found = False\<rparr>,
                          \<lparr>zoneStart = 170, zoneEnd = 190, found = False\<rparr>]\<rparr>))) = Failure
   \<and> list_all found (successZones (sc_run sc_exampleConfig sc_exampleSession
      (sc_startGame 0 ((sc_initial sc_exampleConfig 0)
        \<lparr>successZones := [\<lparr>zoneStart = 0, zoneEnd = 10, found = False\<rparr>,
                          \<lparr>zoneStart = 170, zoneEnd = 190, found = False\<rparr>]\<rparr>))))
   \<and> length (successZones (sc_run sc_exampleConfig sc_exampleSession
      (sc_startGame 0 ((sc_initial sc_exampleConfig 0)
        \<lparr>successZones := [\<lparr>zoneStart = 0, zoneEnd = 10, found = False\<rparr>,
                          \<lparr>zoneStart = 170, zoneEnd = 190, found = False\<rparr>]\<rparr>)))) = 2
   \<and> sc_complete sc_exampleConfig False (sc_run sc_exampleConfig sc_exampleSession
      (sc_startGame 0 ((sc_initial sc_exampleConfig 0)
        \<lparr>successZones := [\<lparr>zoneStart = 0, zoneEnd = 10, found = False\<rparr>,
                          \<lparr>zoneStart = 170, zoneEnd = 190, found = False\<rparr>]\<rparr>)))
     = \<lparr>success = False,
        data = [(''timeRemaining'', JNum 0), (''zonesFound'', JNum 1), (''totalZones'', JNum 2)]\<rparr>"
  using sc_example_mount sc_example_run
    safe_cracker_failure_metrics [OF sc_example_mount, of sc_exampleSession]
  by (simp add: sc_startGame_def)

section \<open>Circuit Solver: a click rotates a piece\<close>

lemma rotateOnce4: "(rotateOnce ^^ 4) conns = conns"
  by (cases conns) (simp add: numeral_eq_Suc rotateOnce_def)

lemma rotateConnections_360: "rotateConnections conns (rot + 360) = rotateConnections conns rot"
proof -
  have "(rot + 360 + 89) div 90 = (rot + 89) div 90 + 4" by simp
  then show ?thesis by (simp add: rotateConnections_def funpow_add rotateOnce4)
qed











section \<open>Circuit Solver: the source and the destination\<close>

lemma createPiece_connections:
  "connections (createPiece Source 0)
     = \<lparr>top_conn = False, right_conn = True, bottom_conn = False, left_conn = False\<rparr>"
  "connections (createPiece Destination 0)
     = \<lparr>top_conn = False, right_conn = False, bottom_conn = False, left_conn = True\<rparr>"
  "connections (createPiece Source 90)
     = \<lparr>top_conn = False, right_conn = False, bottom_conn = True, left_conn = False\<rparr>"
  "connections (createPiece Destination 270)
     = \<lparr>top_conn = False, right_conn = False, bottom_conn = True, left_conn = False\<rparr>"
  by code_simp+

lemma random_index:
  assumes "0 < sz"
  shows "nat (getRandomInt 0 (int sz - 1) u) < sz"
  using getRandomInt_range [of 0 "int sz - 1" u] assms by auto

lemma cell_createGrid_set:
  assumes "r < n" "c < m"
  shows "cell (setCell (createGrid n m None) r c v) r' c'
       = (if r' = r \<and> c' = c then v else None)"
  using assms by (auto simp: cell_def setCell_def js_store_def createGrid_def nth_list_update)

text \<open>A piece in the last row whose only connection is the bottom one: no cell is linked to
  it, so power never reaches it.\<close>

lemma last_row_bottom_only:
  assumes "cell g r c = Some q"
    and "connections q = \<lparr>top_conn = False, right_conn = False, bottom_conn = True, left_conn = False\<rparr>"
    and "r + 1 = length g"
  shows "\<not> linked g a (r, c)"
proof (cases "cell g (fst a) (snd a)")
  case None
  then show ?thesis by (simp add: linked_def)
next
  case (Some p)
  have "fst a < length g" using Some by (auto simp: cell_def split: if_splits)
  then have "fst a \<noteq> r + 1" using assms(3) by simp
  then show ?thesis using Some assms(1,2) by (auto simp: linked_def)
qed

text \<open>
  C1 (vertical orientation).  When the first draw is not below 0.5 the source goes to row 0
  and the destination to row \<open>size - 1\<close> of a random column.  On the fresh square grid
  \<^verbatim>\<open>createGrid(size, size, null)\<close> the placement returns, and the destination cell holds
  \<^verbatim>\<open>createPiece('destination', 270)\<close>: a fixed piece whose one connection is the bottom one,
  which in the last row points out of the grid, not into it.  On no board of that size with
  this piece in that cell is any cell linked to the destination.
\<close>

theorem vertical_destination_points_down:
  assumes "\<not> Rep_draw u1 < 1 / 2" and "0 < sz" and "grid st = createGrid sz sz None"
  shows "\<exists>st'. placeSourceAndDestination sz u1 u2 st = Inr st'
           \<and> fst (destinationPosition st') = sz - 1
           \<and> cell (grid st') (fst (destinationPosition st')) (snd (destinationPosition st'))
               = Some (createPiece Destination 270)
           \<and> fixed (createPiece Destination 270)
           \<and> connections (createPiece Destination 270)
               = \<lparr>top_conn = False, right_conn = False, bottom_conn = True, left_conn = False\<rparr>
           \<and> (\<forall>g a. length g = sz
                  \<and> cell g (fst (destinationPosition st')) (snd (destinationPosition st'))
                      = Some (createPiece Destination 270)
                \<longrightarrow> \<not> linked g a (destinationPosition st'))"
proof -
  let ?col = "nat (getRandomInt 0 (int sz - 1) u2)"
  let ?g1 = "setCell (grid st) 0 ?col (Some (createPiece Source 90))"
  let ?g2 = "setCell ?g1 (sz - 1) ?col (Some (createPiece Destination 270))"
  let ?st' = "st\<lparr>sourcePosition := (0, ?col), destinationPosition := (sz - 1, ?col), grid := ?g2\<rparr>"
  have col: "?col < sz" by (rule random_index [OF assms(2)])
  have len: "length (grid st) = sz" using assms(3) by (simp add: createGrid_def)
  have run: "placeSourceAndDestination sz u1 u2 st = Inr ?st'"
    using assms(1,2) len by (simp add: placeSourceAndDestination_def Let_def)
  have l1: "sz - 1 < length ?g1" "?col < length (?g1 ! (sz - 1))"
    using assms(2,3) col
    by (auto simp: setCell_def createGrid_def js_store_def nth_list_update)
  have "cell ?g2 (sz - 1) ?col = Some (createPiece Destination 270)"
    using l1 by (simp add: cell_def setCell_def js_store_def)
  then have d: "cell (grid ?st') (fst (destinationPosition ?st')) (snd (destinationPosition ?st'))
               = Some (createPiece Destination 270)" by simp
  have f: "fixed (createPiece Destination 270)" by (simp add: createPiece_def)
  have n: "\<forall>g a. length g = sz
                  \<and> cell g (fst (destinationPosition ?st')) (snd (destinationPosition ?st'))
                      = Some (createPiece Destination 270)
                \<longrightarrow> \<not> linked g a (destinationPosition ?st')"
  proof (intro allI impI)
    fix g :: Grid and a :: Position
    assume h: "length g = sz
                  \<and> cell g (fst (destinationPosition ?st')) (snd (destinationPosition ?st'))
                      = Some (createPiece Destination 270)"
    then have c: "cell g (sz - 1) ?col = Some (createPiece Destination 270)" by simp
    have "sz - 1 + 1 = length g" using h assms(2) by simp
    from last_row_bottom_only [OF c createPiece_connections(4) this]
    show "\<not> linked g a (destinationPosition ?st')" by simp
  qed
  show ?thesis
    by (rule exI [of _ ?st']) (use run d f n createPiece_connections(4) in simp)
qed

lemma example_link:
  "\<not> linked [[None, Some (createPiece Source 90), None],
               [None, Some (createPiece Straight 0), None],
               [None, Some (createPiece Destination 270), None]] (1, 1) (2, 1)
   \<and> linked [[None, Some (createPiece Source 90), None],
               [None, Some (createPiece Straight 0), None],
               [None, Some (createPiece Destination 270), None]] (0, 1) (1, 1)"
  by code_simp

theorem vertical_destination_points_down_witness:
  "placeSourceAndDestination 3 (Abs_draw (3 / 4)) (Abs_draw (1 / 2))
      \<lparr>gameState = Idle, timeLeft = 30000, timer = newTimer 30000 0, pending = [],
       grid = createGrid 3 3 None, sourcePosition = (0, 0), destinationPosition = (0, 0)\<rparr>
   = Inr \<lparr>gameState = Idle, timeLeft = 30000, timer = newTimer 30000 0, pending = [],
       grid = [[None, Some (createPiece Source 90), None],
               [None, None, None],
               [None, Some (createPiece Destination 270), None]],
       sourcePosition = (0, 1), destinationPosition = (2, 1)\<rparr>
   \<and> bottom_conn (connections (createPiece Destination 270))
   \<and> \<not> top_conn (connections (createPiece Destination 270))
   \<and> \<not> linked [[None, Some (createPiece Source 90), None],
                  [None, Some (createPiece Straight 0), None],
                  [None, Some (createPiece Destination 270), None]] (1, 1) (2, 1)"
proof -
  have d: "Rep_draw (Abs_draw (3 / 4)) = 3 / 4" "Rep_draw (Abs_draw (1 / 2)) = 1 / 2"
    by (simp_all add: Abs_draw_inverse)
  have v: "\<not> Rep_draw (Abs_draw (3 / 4)) < 1 / 2" by (simp add: d)
  let ?st = "\<lparr>gameState = Idle, timeLeft = 30000, timer = newTimer 30000 0, pending = [],
       grid = createGrid 3 3 None, sourcePosition = (0, 0), destinationPosition = (0, 0)\<rparr>"
  have g: "grid ?st = createGrid 3 3 None" by simp
  have run: "placeSourceAndDestination 3 (Abs_draw (3 / 4)) (Abs_draw (1 / 2)) ?st
   = Inr \<lparr>gameState = Idle, timeLeft = 30000, timer = newTimer 30000 0, pending = [],
       grid = [[None, Some (createPiece Source 90), None],
               [None, None, None],
               [None, Some (createPiece Destination 270), None]],
       sourcePosition = (0, 1), destinationPosition = (2, 1)\<rparr>"
    by (simp add: placeSourceAndDestination_def Let_def d getRandomInt_def createGrid_def
        setCell_def js_store_def numeral_3_eq_3 numeral_2_eq_2)
  from vertical_destination_points_down [OF v _ g, of "Abs_draw (1 / 2)"]
  have "bottom_conn (connections (createPiece Destination 270))
        \<and> \<not> top_conn (connections (createPiece Destination 270))"
    by auto
  with run example_link show ?thesis by simp
qed

end
